theory Spec2Isabelle
  imports Main "HOL-Library.Sublist"
begin

section \<open>Strings and regular-expression scanning\<close>

text \<open>
  A JavaScript string is modelled as a \<^typ>\<open>string\<close> that holds its UTF-8 encoding, one
  \<^typ>\<open>char\<close> for each byte.  The tag grammar is plain ASCII, and in UTF-8 an ASCII byte
  is always the ASCII character itself, so a pattern whose literal characters are ASCII
  matches at the same places in the bytes as in the string.  Offsets count bytes.

  \<open>RegExp.prototype.exec\<close> tries the pattern at every start offset from left to right and
  returns the first offset at which it matches.  \<open>regex_exec m s\<close> does the same for a
  pattern given as an anchored matcher \<open>m\<close> (what the pattern yields when it has to match
  at the head of its argument), and returns the offset together with the matcher's result.
  \<open>regex_test\<close> is \<open>RegExp.prototype.test\<close> of a pattern without the \<open>g\<close> flag.
\<close>

fun regex_exec :: "(string \<Rightarrow> 'a option) \<Rightarrow> string \<Rightarrow> (nat \<times> 'a) option" where
  "regex_exec m [] = map_option (Pair 0) (m [])"
| "regex_exec m (c # cs) =
     (case m (c # cs) of
        Some r \<Rightarrow> Some (0, r)
      | None \<Rightarrow> map_option (\<lambda>(i, r). (Suc i, r)) (regex_exec m cs))"

definition regex_test :: "(string \<Rightarrow> 'a option) \<Rightarrow> string \<Rightarrow> bool" where
  "regex_test m s = (regex_exec m s \<noteq> None)"

definition match_literal :: "string \<Rightarrow> string \<Rightarrow> unit option" where
  "match_literal lit s = (if prefix lit s then Some () else None)"

lemma regex_exec_Some:
  "regex_exec m s = Some (i, r) \<Longrightarrow> i \<le> length s \<and> m (drop i s) = Some r \<and> (\<forall>j<i. m (drop j s) = None)"
proof (induction s arbitrary: i r)
  case Nil
  then show ?case by auto
next
  case (Cons c cs)
  show ?case
  proof (cases "m (c # cs)")
    case None
    with Cons.prems obtain i' where i': "regex_exec m cs = Some (i', r)" "i = Suc i'"
      by (auto split: prod.splits)
    from Cons.IH[OF i'(1)] have ih: "i' \<le> length cs" "m (drop i' cs) = Some r" "\<forall>j<i'. m (drop j cs) = None"
      by auto
    have "\<forall>j<i. m (drop j (c # cs)) = None"
    proof (intro allI impI)
      fix j assume "j < i"
      then show "m (drop j (c # cs)) = None"
        using None ih(3) i'(2) by (cases j) auto
    qed
    then show ?thesis using ih i'(2) by simp
  next
    case (Some a)
    with Cons.prems show ?thesis by auto
  qed
qed

lemma regex_exec_None:
  "regex_exec m s = None \<Longrightarrow> m (drop j s) = None"
proof (induction s arbitrary: j)
  case Nil
  then show ?case by auto
next
  case (Cons c cs)
  then show ?case by (cases j) (auto split: option.splits)
qed

lemma regex_test_literal:
  "lit \<noteq> [] \<Longrightarrow> regex_test (match_literal lit) (drop r s) \<longleftrightarrow> (\<exists>k\<ge>r. prefix lit (drop k s))"
proof
  assume "regex_test (match_literal lit) (drop r s)"
  then obtain i u where "regex_exec (match_literal lit) (drop r s) = Some (i, u)"
    by (cases "regex_exec (match_literal lit) (drop r s)") (auto simp: regex_test_def)
  from regex_exec_Some[OF this] have "prefix lit (drop (r + i) s)"
    by (auto simp: match_literal_def add.commute split: if_splits)
  then show "\<exists>k\<ge>r. prefix lit (drop k s)" by (intro exI[of _ "r + i"]) simp
next
  assume "\<exists>k\<ge>r. prefix lit (drop k s)"
  then obtain k where k: "r \<le> k" "prefix lit (drop k s)" by blast
  show "regex_test (match_literal lit) (drop r s)"
  proof (rule ccontr)
    assume "\<not> regex_test (match_literal lit) (drop r s)"
    then have "regex_exec (match_literal lit) (drop r s) = None" unfolding regex_test_def by blast
    from regex_exec_None[OF this, of "k - r"] k show False
      by (simp add: match_literal_def split: if_splits)
  qed
qed

lemma takeWhile_length_less:
  "x \<in> set xs \<Longrightarrow> \<not> P x \<Longrightarrow> length (takeWhile P xs) < length xs"
  by (induction xs) auto

lemma prefix_drop_nth:
  assumes "prefix p (drop k s)" "j < length p"
  shows "s ! (k + j) = p ! j" "k + length p \<le> length s"
proof -
  from assms(1) obtain r where r: "drop k s = p @ r" by (auto simp: prefix_def)
  then have "length (drop k s) = length p + length r" by simp
  then show le: "k + length p \<le> length s" using assms(2) by simp
  have "s ! (k + j) = drop k s ! j" using le assms(2) by simp
  then show "s ! (k + j) = p ! j" using r assms(2) by (simp add: nth_append)
qed

lemma sorted_le_last: "sorted xs \<Longrightarrow> (p::nat) \<in> set xs \<Longrightarrow> p \<le> last xs"
  by (induction xs) auto

lemma regex_exec_first:
  assumes "m (drop k s) = Some r" "\<forall>j<k. m (drop j s) = None"
  shows "regex_exec m s = Some (k, r)"
proof (cases "regex_exec m s")
  case None
  from regex_exec_None[OF this, of k] assms(1) show ?thesis by simp
next
  case (Some a)
  then obtain i r' where a: "regex_exec m s = Some (i, r')" by (cases a) auto
  from regex_exec_Some[OF a] have i: "m (drop i s) = Some r'" "\<forall>j<i. m (drop j s) = None" by auto
  have "\<not> i < k" using assms(2) i(1) by auto
  moreover have "\<not> k < i" using assms(1) i(2) by auto
  ultimately have "i = k" by simp
  with i(1) assms(1) a show ?thesis by simp
qed

lemma regex_exec_literal_iff:
  "regex_exec (match_literal lit) s = Some (k, u) \<longleftrightarrow>
     prefix lit (drop k s) \<and> (\<forall>j<k. \<not> prefix lit (drop j s))"
proof
  assume "regex_exec (match_literal lit) s = Some (k, u)"
  from regex_exec_Some[OF this] show "prefix lit (drop k s) \<and> (\<forall>j<k. \<not> prefix lit (drop j s))"
    by (auto simp: match_literal_def split: if_splits)
next
  assume "prefix lit (drop k s) \<and> (\<forall>j<k. \<not> prefix lit (drop j s))"
  then have "match_literal lit (drop k s) = Some u" "\<forall>j<k. match_literal lit (drop j s) = None"
    by (auto simp: match_literal_def)
  then show "regex_exec (match_literal lit) s = Some (k, u)" by (rule regex_exec_first)
qed

definition strip_prefix :: "string \<Rightarrow> string \<Rightarrow> string option" where
  "strip_prefix p s = (if prefix p s then Some (drop (length p) s) else None)"

lemma strip_prefix_iff: "strip_prefix p s = Some r \<longleftrightarrow> s = p @ r"
  by (auto simp: strip_prefix_def prefix_def)

text \<open>
  \<open>String.prototype.trim\<close> removes white space and line terminators from both ends:
  U+0009 to U+000D, U+0020, U+00A0, U+1680, U+2000 to U+200A, U+2028, U+2029, U+202F,
  U+205F, U+3000 and U+FEFF, listed here in UTF-8.
\<close>

definition js_whitespace :: "string list" where
  "js_whitespace =
     [[CHR 0x09], [CHR 0x0A], [CHR 0x0B], [CHR 0x0C], [CHR 0x0D], [CHR 0x20],
      [CHR 0xC2, CHR 0xA0], [CHR 0xE1, CHR 0x9A, CHR 0x80],
      [CHR 0xE2, CHR 0x80, CHR 0x80], [CHR 0xE2, CHR 0x80, CHR 0x81],
      [CHR 0xE2, CHR 0x80, CHR 0x82], [CHR 0xE2, CHR 0x80, CHR 0x83],
      [CHR 0xE2, CHR 0x80, CHR 0x84], [CHR 0xE2, CHR 0x80, CHR 0x85],
      [CHR 0xE2, CHR 0x80, CHR 0x86], [CHR 0xE2, CHR 0x80, CHR 0x87],
      [CHR 0xE2, CHR 0x80, CHR 0x88], [CHR 0xE2, CHR 0x80, CHR 0x89],
      [CHR 0xE2, CHR 0x80, CHR 0x8A], [CHR 0xE2, CHR 0x80, CHR 0xA8],
      [CHR 0xE2, CHR 0x80, CHR 0xA9], [CHR 0xE2, CHR 0x80, CHR 0xAF],
      [CHR 0xE2, CHR 0x81, CHR 0x9F], [CHR 0xE3, CHR 0x80, CHR 0x80],
      [CHR 0xEF, CHR 0xBB, CHR 0xBF]]"

definition strip_whitespace :: "string \<Rightarrow> string option" where
  "strip_whitespace s =
     (case filter (\<lambda>p. prefix p s) js_whitespace of
        [] \<Rightarrow> None
      | p # ps \<Rightarrow> Some (drop (length p) s))"

lemma strip_whitespace_shorter: "strip_whitespace s = Some r \<Longrightarrow> length r < length s"
proof -
  assume a: "strip_whitespace s = Some r"
  then obtain p ps where f: "filter (\<lambda>p. prefix p s) js_whitespace = p # ps"
    and r: "r = drop (length p) s"
    by (auto simp: strip_whitespace_def split: list.splits)
  from f have "p \<in> set (filter (\<lambda>p. prefix p s) js_whitespace)" by simp
  then have "p \<in> set js_whitespace" "prefix p s" by simp_all
  then have "0 < length p" "length p \<le> length s"
    by (auto simp: js_whitespace_def prefix_def)
  with r show ?thesis by (cases p) auto
qed

function trimStart :: "string \<Rightarrow> string" where
  "trimStart s = (case strip_whitespace s of None \<Rightarrow> s | Some r \<Rightarrow> trimStart r)"
  by pat_completeness auto
termination
  by (relation "measure length") (auto dest: strip_whitespace_shorter)

declare trimStart.simps [simp del]

text \<open>
  At the end of the string the same characters are removed; in UTF-8 a suffix that is
  the encoding of a character is that character.
\<close>

definition strip_whitespace_end :: "string \<Rightarrow> string option" where
  "strip_whitespace_end s =
     (case filter (\<lambda>p. suffix p s) js_whitespace of
        [] \<Rightarrow> None
      | p # ps \<Rightarrow> Some (take (length s - length p) s))"

lemma strip_whitespace_end_shorter:
  "strip_whitespace_end s = Some r \<Longrightarrow> length r < length s"
proof -
  assume a: "strip_whitespace_end s = Some r"
  then obtain p ps where f: "filter (\<lambda>p. suffix p s) js_whitespace = p # ps"
    and r: "r = take (length s - length p) s"
    by (auto simp: strip_whitespace_end_def split: list.splits)
  from f have "p \<in> set (filter (\<lambda>p. suffix p s) js_whitespace)" by simp
  then have "p \<in> set js_whitespace" "suffix p s" by simp_all
  then have "0 < length p" "length p \<le> length s"
    by (auto simp: js_whitespace_def suffix_def)
  with r show ?thesis by (cases p) auto
qed

function trimEnd :: "string \<Rightarrow> string" where
  "trimEnd s = (case strip_whitespace_end s of None \<Rightarrow> s | Some r \<Rightarrow> trimEnd r)"
  by pat_completeness auto
termination
  by (relation "measure length") (auto dest: strip_whitespace_end_shorter)

declare trimEnd.simps [simp del]

definition trim :: "string \<Rightarrow> string" where
  "trim s = trimEnd (trimStart s)"

text \<open>
  \<open>String.prototype.split\<close> with a separator of one character, and
  \<open>Array.prototype.join\<close>.  Splitting the empty string gives one empty piece; the
  result is never the empty list (lemma \<open>split_on_nonempty\<close>), so the last case of
  \<open>split_on\<close> is never taken.
\<close>

fun split_on :: "char \<Rightarrow> string \<Rightarrow> string list" where
  "split_on sep [] = [[]]"
| "split_on sep (c # cs) =
     (if c = sep then [] # split_on sep cs
      else (case split_on sep cs of
              piece # pieces \<Rightarrow> (c # piece) # pieces
            | [] \<Rightarrow> [[c]]))"

fun join :: "string \<Rightarrow> string list \<Rightarrow> string" where
  "join sep [] = []"
| "join sep [x] = x"
| "join sep (x # y # ys) = x @ sep @ join sep (y # ys)"

lemma split_on_nonempty: "split_on sep s \<noteq> []"
  by (induction s) (auto split: list.splits)

lemma join_split_on: "join [sep] (split_on sep s) = s"
proof (induction s)
  case Nil
  show ?case by simp
next
  case (Cons c cs)
  obtain t ts where ts: "split_on sep cs = t # ts"
    using split_on_nonempty[of sep cs] by (cases "split_on sep cs") auto
  with Cons show ?case by (cases ts) auto
qed

lemma split_on_no_sep: "t \<in> set (split_on sep s) \<Longrightarrow> sep \<notin> set t"
proof (induction s arbitrary: t)
  case Nil
  then show ?case by simp
next
  case (Cons c cs)
  obtain u us where us: "split_on sep cs = u # us"
    using split_on_nonempty[of sep cs] by (cases "split_on sep cs") auto
  with Cons show ?case by (auto split: if_splits)
qed

section \<open>tag-parser: truncation detection\<close>

text \<open>
  \<^verbatim>\<open>/<dyad-write[^>]*>/g\<close> at the head of \<open>s\<close>: the literal \<open><dyad-write\<close>, the longest run
  of characters other than \<open>>\<close>, then \<open>>\<close>.  The run cannot be shortened by backtracking,
  because the character after a shorter run is not \<open>>\<close>.  The result is the length of
  the match (the pattern has no \<open>i\<close> flag: it is case sensitive).
\<close>

definition match_write_open :: "string \<Rightarrow> nat option" where
  "match_write_open s =
     (if prefix ''<dyad-write'' s then
        (let rest = drop 11 s in
         if CHR ''>'' \<in> set rest
         then Some (11 + length (takeWhile (\<lambda>c. c \<noteq> CHR ''>'') rest) + 1)
         else None)
      else None)"

lemma match_write_open_bounds:
  "match_write_open s = Some n \<Longrightarrow> 12 \<le> n \<and> n \<le> length s"
proof -
  assume a: "match_write_open s = Some n"
  then have p: "prefix ''<dyad-write'' s" and m: "CHR ''>'' \<in> set (drop 11 s)"
    and n: "n = 11 + length (takeWhile (\<lambda>c. c \<noteq> CHR ''>'') (drop 11 s)) + 1"
    by (auto simp: match_write_open_def Let_def split: if_splits)
  have "length (takeWhile (\<lambda>c. c \<noteq> CHR ''>'') (drop 11 s)) < length (drop 11 s)"
    using m by (rule takeWhile_length_less) simp
  moreover have "11 \<le> length s" using p by (auto simp: prefix_def)
  ultimately show ?thesis using n by auto
qed

text \<open>
  The loop \<^verbatim>\<open>while ((match = openRegex.exec(text)) !== null) lastOpenIndex = match.index\<close>.
  \<open>lastIndex\<close> is the regular expression's own cursor: a successful \<open>exec\<close> moves it to
  the end of the match, so the matches found are the successive non-overlapping ones.
\<close>

function write_open_scan :: "string \<Rightarrow> nat \<Rightarrow> int \<Rightarrow> int" where
  "write_open_scan text lastIndex lastOpenIndex =
     (case regex_exec match_write_open (drop lastIndex text) of
        None \<Rightarrow> lastOpenIndex
      | Some (i, n) \<Rightarrow> write_open_scan text (lastIndex + i + n) (int (lastIndex + i)))"
  by pat_completeness auto
termination
proof (relation "measure (\<lambda>(text, lastIndex, _). length text - lastIndex)", goal_cases)
  case 1
  show ?case by simp
next
  case (2 doc lastIndex lastOpenIndex x2 i n)
  then have "regex_exec match_write_open (drop lastIndex doc) = Some (i, n)" by simp
  from regex_exec_Some[OF this]
  have "i \<le> length (drop lastIndex doc)" "match_write_open (drop i (drop lastIndex doc)) = Some n" by auto
  with match_write_open_bounds[of "drop i (drop lastIndex doc)" n]
  show ?case by auto
qed

definition hasUnclosedWriteTag :: "string \<Rightarrow> bool" where
  "hasUnclosedWriteTag text =
     (let lastOpenIndex = write_open_scan text 0 (- 1) in
      if lastOpenIndex = - 1 then False
      else \<not> regex_test (match_literal ''</dyad-write>'') (drop (nat lastOpenIndex) text))"

subsection \<open>What the scan computes\<close>

text \<open>
  The notions the specification uses.  A Write opening marker stands at offset \<open>i\<close> when
  the text from \<open>i\<close> on reads \<open><dyad-write\<close>, attribute text free of \<open>>\<close>, and \<open>>\<close>
  (lemma \<open>write_open_at_iff\<close>); a Write closing marker stands at offset \<open>k\<close> when the
  text from \<open>k\<close> on starts with \<open></dyad-write>\<close>.  \<open>write_open_offsets\<close> lists the
  offsets of all opening markers in increasing order, overlapping ones included.
\<close>

definition write_open_at :: "string \<Rightarrow> nat \<Rightarrow> bool" where
  "write_open_at text i = (match_write_open (drop i text) \<noteq> None)"

definition write_close_at :: "string \<Rightarrow> nat \<Rightarrow> bool" where
  "write_close_at text k = prefix ''</dyad-write>'' (drop k text)"

definition write_open_offsets :: "string \<Rightarrow> nat list" where
  "write_open_offsets text = filter (write_open_at text) [0..<length text]"

lemma match_write_open_iff:
  "match_write_open s \<noteq> None \<longleftrightarrow>
     (\<exists>attrs rest. s = ''<dyad-write'' @ attrs @ ''>'' @ rest \<and> CHR ''>'' \<notin> set attrs)"
proof
  assume "match_write_open s \<noteq> None"
  then have p: "prefix ''<dyad-write'' s" and m: "CHR ''>'' \<in> set (drop 11 s)"
    by (auto simp: match_write_open_def Let_def split: if_splits)
  from p have s: "s = ''<dyad-write'' @ drop 11 s"
    by (auto simp: prefix_def)
  define attrs where "attrs = takeWhile (\<lambda>c. c \<noteq> CHR ''>'') (drop 11 s)"
  define r where "r = dropWhile (\<lambda>c. c \<noteq> CHR ''>'') (drop 11 s)"
  have d: "drop 11 s = attrs @ r" by (simp add: attrs_def r_def)
  have "r \<noteq> []" using m by (auto simp: r_def)
  moreover have "\<not> (hd r \<noteq> CHR ''>'')" using \<open>r \<noteq> []\<close> unfolding r_def by (rule hd_dropWhile)
  ultimately obtain r' where r: "r = CHR ''>'' # r'" by (cases r) auto
  have "CHR ''>'' \<notin> set attrs" unfolding attrs_def by (auto dest: set_takeWhileD)
  moreover have "''<dyad-write'' @ drop 11 s = ''<dyad-write'' @ attrs @ ''>'' @ r'"
    using d r by simp
  then have "s = ''<dyad-write'' @ attrs @ ''>'' @ r'" by (rule trans[OF s])
  ultimately show "\<exists>attrs rest. s = ''<dyad-write'' @ attrs @ ''>'' @ rest \<and> CHR ''>'' \<notin> set attrs"
    by blast
next
  assume "\<exists>attrs rest. s = ''<dyad-write'' @ attrs @ ''>'' @ rest \<and> CHR ''>'' \<notin> set attrs"
  then obtain attrs rest where s: "s = ''<dyad-write'' @ attrs @ ''>'' @ rest" by blast
  have "match_write_open (''<dyad-write'' @ attrs @ ''>'' @ rest) \<noteq> None"
    by (simp add: match_write_open_def)
  then show "match_write_open s \<noteq> None"
    unfolding s .
qed

lemma match_write_open_nth:
  assumes "match_write_open s = Some n"
  shows "prefix ''<dyad-write'' s" "12 \<le> n" "n \<le> length s" "s ! (n - 1) = CHR ''>''"
    "\<And>j. 11 \<le> j \<Longrightarrow> j < n - 1 \<Longrightarrow> s ! j \<noteq> CHR ''>''"
proof -
  let ?P = "\<lambda>c. c \<noteq> CHR ''>''"
  let ?tw = "takeWhile ?P (drop 11 s)"
  from assms have p: "prefix ''<dyad-write'' s" and m: "CHR ''>'' \<in> set (drop 11 s)"
    and n: "n = 11 + length ?tw + 1"
    by (auto simp: match_write_open_def Let_def split: if_splits)
  have lt: "length ?tw < length (drop 11 s)"
    using m by (rule takeWhile_length_less) simp
  show "prefix ''<dyad-write'' s" by (rule p)
  show "12 \<le> n" using n by simp
  show "n \<le> length s" using n lt by simp
  have len: "11 \<le> length s" using lt by simp
  have nd: "\<And>k. drop 11 s ! k = s ! (11 + k)" using len by (rule nth_drop)
  have "\<not> ?P (drop 11 s ! length ?tw)" using lt by (rule nth_length_takeWhile)
  then have "s ! (11 + length ?tw) = CHR ''>''" unfolding nd by simp
  moreover have "n - 1 = 11 + length ?tw" using n by simp
  ultimately show "s ! (n - 1) = CHR ''>''" by metis
  fix j assume j: "11 \<le> j" "j < n - 1"
  then have j': "j - 11 < length ?tw" using n by simp
  then have "?tw ! (j - 11) \<in> set ?tw" by (rule nth_mem)
  then have "?P (?tw ! (j - 11))" by (rule set_takeWhileD[THEN conjunct2])
  moreover have "?tw ! (j - 11) = drop 11 s ! (j - 11)" using j' by (rule takeWhile_nth)
  moreover have "drop 11 s ! (j - 11) = s ! j" unfolding nd using j(1) by simp
  ultimately show "s ! j \<noteq> CHR ''>''" by metis
qed

lemma write_open_at_iff:
  "write_open_at doc i \<longleftrightarrow>
     (\<exists>attrs rest. drop i doc = ''<dyad-write'' @ attrs @ ''>'' @ rest \<and> CHR ''>'' \<notin> set attrs)"
  unfolding write_open_at_def by (rule match_write_open_iff)

lemma write_open_overlap:
  assumes "match_write_open (drop m t) = Some n" "m < p" "p < m + n"
    "match_write_open (drop p t) \<noteq> None" "m \<le> c" "c < p"
    "prefix ''</dyad-write>'' (drop c t)"
  shows False
proof -
  let ?s = "drop m t"
  note mo = match_write_open_nth[OF assms(1)]
  from assms(4) obtain n' where n': "match_write_open (drop p t) = Some n'" by auto
  note po = match_write_open_nth[OF n']
  have lt: "m + n \<le> length t" using mo(3) mo(2) by simp
  have gt: "t ! (m + n - 1) = CHR ''>''" using mo(4) mo(2) lt by (simp add: add.commute)
  have nogt: "\<And>j. m + 11 \<le> j \<Longrightarrow> j < m + n - 1 \<Longrightarrow> t ! j \<noteq> CHR ''>''"
  proof -
    fix j assume "m + 11 \<le> j" "j < m + n - 1"
    then have "?s ! (j - m) \<noteq> CHR ''>''" using mo(5)[of "j - m"] by simp
    then show "t ! j \<noteq> CHR ''>''" using \<open>m + 11 \<le> j\<close> \<open>j < m + n - 1\<close> lt by simp
  qed
  have popen: "\<And>j. j < 11 \<Longrightarrow> t ! (p + j) = ''<dyad-write'' ! j"
    using prefix_drop_nth(1)[OF po(1)] by simp
  have cclose: "\<And>j. j < 13 \<Longrightarrow> t ! (c + j) = ''</dyad-write>'' ! j"
    using prefix_drop_nth(1)[OF assms(7)] by simp
  have "p + 11 \<le> m + n - 1"
  proof (rule ccontr)
    assume "\<not> p + 11 \<le> m + n - 1"
    then have "m + n - 1 - p < 11" "p + (m + n - 1 - p) = m + n - 1" using assms(3) by auto
    with popen[of "m + n - 1 - p"] gt have "''<dyad-write'' ! (m + n - 1 - p) = CHR ''>''" by simp
    moreover have "''<dyad-write'' ! (m + n - 1 - p) \<in> set ''<dyad-write''"
      using \<open>m + n - 1 - p < 11\<close> by (intro nth_mem) simp
    ultimately show False by simp
  qed
  have c12: "t ! (c + 12) = CHR ''>''" using cclose[of 12] by simp
  have "\<not> c + 12 < m + n - 1" using nogt[of "c + 12"] c12 assms(5) by auto
  with \<open>p + 11 \<le> m + n - 1\<close> assms(6) have "p = c + 1" by simp
  with popen[of 0] cclose[of 1] show False by simp
qed

definition scan_final :: "string \<Rightarrow> int \<Rightarrow> bool" where
  "scan_final text R \<longleftrightarrow>
     (R = - 1 \<and> (\<forall>p. \<not> write_open_at text p)) \<or>
     (0 \<le> R \<and> write_open_at text (nat R) \<and>
        (\<forall>p c. write_open_at text p \<and> nat R \<le> c \<and> c < p \<longrightarrow> \<not> write_close_at text c))"

definition scan_inv :: "string \<Rightarrow> nat \<Rightarrow> int \<Rightarrow> bool" where
  "scan_inv text li lo \<longleftrightarrow>
     (lo = - 1 \<and> (\<forall>p<li. \<not> write_open_at text p)) \<or>
     (0 \<le> lo \<and> write_open_at text (nat lo) \<and>
        (\<forall>p c. p < li \<and> write_open_at text p \<and> nat lo \<le> c \<and> c < p \<longrightarrow> \<not> write_close_at text c))"

lemma write_open_scan_final:
  "scan_inv doc li lo \<Longrightarrow> scan_final doc (write_open_scan doc li lo)"
proof (induction doc li lo rule: write_open_scan.induct)
  case (1 doc li lo)
  show ?case
  proof (cases "regex_exec match_write_open (drop li doc)")
    case None
    have no: "\<And>p. li \<le> p \<Longrightarrow> \<not> write_open_at doc p"
    proof -
      fix p assume "li \<le> p"
      with regex_exec_None[OF None, of "p - li"] show "\<not> write_open_at doc p"
        by (simp add: write_open_at_def)
    qed
    have res: "write_open_scan doc li lo = lo" using None by simp
    from "1.prems" no show ?thesis unfolding res scan_inv_def scan_final_def
      by (metis not_le_imp_less)
  next
    case (Some a)
    then obtain i n where a: "a = (i, n)" by (cases a)
    note ex = regex_exec_Some[OF Some[unfolded a]]
    have res: "write_open_scan doc li lo = write_open_scan doc (li + i + n) (int (li + i))"
      using Some a by simp
    have mo: "match_write_open (drop (li + i) doc) = Some n" using ex by (simp add: add.commute)
    have "scan_inv doc (li + i + n) (int (li + i))"
      unfolding scan_inv_def
    proof (intro disjI2 conjI allI impI)
      show "0 \<le> int (li + i)" by simp
      show "write_open_at doc (nat (int (li + i)))" using mo unfolding nat_int write_open_at_def by simp
      fix p c
      assume h: "p < li + i + n \<and> write_open_at doc p \<and> nat (int (li + i)) \<le> c \<and> c < p"
      show "\<not> write_close_at doc c"
      proof
        assume "write_close_at doc c"
        then have "prefix ''</dyad-write>'' (drop c doc)" by (simp add: write_close_at_def)
        moreover have "match_write_open (drop p doc) \<noteq> None" using h by (simp add: write_open_at_def)
        ultimately show False
          using write_open_overlap[OF mo, of p c] h unfolding nat_int by (cases "li + i < p") auto
      qed
    qed
    from "1.IH"[OF Some[unfolded a] refl this] show ?thesis unfolding res .
  qed
qed

lemma write_open_at_length: "write_open_at doc p \<Longrightarrow> p < length doc"
proof -
  assume "write_open_at doc p"
  then obtain n where "match_write_open (drop p doc) = Some n"
    by (auto simp: write_open_at_def)
  from match_write_open_bounds[OF this] show ?thesis by (cases "p < length doc") auto
qed

lemma set_write_open_offsets: "set (write_open_offsets doc) = {p. write_open_at doc p}"
  using write_open_at_length by (auto simp: write_open_offsets_def)

lemma write_open_offsets_le_last:
  assumes "p \<in> set (write_open_offsets doc)"
  shows "p \<le> last (write_open_offsets doc)"
proof -
  have "sorted (write_open_offsets doc)"
    unfolding write_open_offsets_def by (rule sorted_wrt_filter) simp
  then show ?thesis using assms by (rule sorted_le_last)
qed

lemma hasUnclosedWriteTag_scan:
  "hasUnclosedWriteTag doc =
     (if write_open_offsets doc = [] then False
      else \<not> (\<exists>k\<ge>last (write_open_offsets doc). write_close_at doc k))"
proof -
  define R where "R = write_open_scan doc 0 (- 1)"
  have "scan_inv doc 0 (- 1)" by (simp add: scan_inv_def)
  then have fin: "scan_final doc R" unfolding R_def by (rule write_open_scan_final)
  have has: "hasUnclosedWriteTag doc =
      (if R = - 1 then False else \<not> (\<exists>k\<ge>nat R. write_close_at doc k))"
    unfolding hasUnclosedWriteTag_def R_def[symmetric] Let_def write_close_at_def
    by (simp add: regex_test_literal)
  show ?thesis
  proof (cases "R = - 1")
    case True
    with fin have "\<forall>p. \<not> write_open_at doc p" by (auto simp: scan_final_def)
    then have "set (write_open_offsets doc) = {}" by (simp add: set_write_open_offsets)
    then show ?thesis using has True by simp
  next
    case False
    with fin have R: "0 \<le> R" "write_open_at doc (nat R)"
      and cl: "\<And>p c. write_open_at doc p \<Longrightarrow> nat R \<le> c \<Longrightarrow> c < p \<Longrightarrow> \<not> write_close_at doc c"
      by (auto simp: scan_final_def)
    let ?L = "last (write_open_offsets doc)"
    have Rin: "nat R \<in> set (write_open_offsets doc)" using R(2) by (simp add: set_write_open_offsets)
    then have ne: "write_open_offsets doc \<noteq> []" by auto
    have RL: "nat R \<le> ?L" using Rin by (rule write_open_offsets_le_last)
    have "?L \<in> set (write_open_offsets doc)" using ne by simp
    then have oL: "write_open_at doc ?L" by (simp add: set_write_open_offsets)
    have "(\<exists>k\<ge>nat R. write_close_at doc k) \<longleftrightarrow> (\<exists>k\<ge>?L. write_close_at doc k)"
    proof
      assume "\<exists>k\<ge>nat R. write_close_at doc k"
      then obtain k where k: "nat R \<le> k" "write_close_at doc k" by blast
      have "?L \<le> k" using cl[OF oL k(1)] k(2) by (cases "k < ?L") auto
      with k(2) show "\<exists>k\<ge>?L. write_close_at doc k" by blast
    next
      assume "\<exists>k\<ge>?L. write_close_at doc k"
      with RL show "\<exists>k\<ge>nat R. write_close_at doc k" by (meson order_trans)
    qed
    then show ?thesis using has False ne by simp
  qed
qed

text \<open>
  Claim C4.  \<open>hasUnclosedWriteTag\<close> returns false when the text holds no Write opening
  marker; otherwise it returns true exactly when no Write closing marker stands at or
  after the offset of the last Write opening marker.  Consequently a text whose last
  opening marker is followed by a closing marker is not judged truncated, whatever prose
  follows the closing marker.
\<close>

theorem hasUnclosedWriteTag_last_open:
  "hasUnclosedWriteTag doc =
     (if write_open_offsets doc = [] then False
      else \<not> (\<exists>k\<ge>last (write_open_offsets doc). write_close_at doc k)) \<and>
   (write_open_offsets doc \<noteq> [] \<and> last (write_open_offsets doc) \<le> k \<and> write_close_at doc k
      \<longrightarrow> \<not> hasUnclosedWriteTag doc)"
  unfolding hasUnclosedWriteTag_scan by auto

theorem hasUnclosedWriteTag_last_open_witness:
  \<open>write_open_offsets ''<dyad-write path="a">x</dyad-write> Done.'' = [0] \<and>
   write_close_at ''<dyad-write path="a">x</dyad-write> Done.'' 22 \<and>
   \<not> hasUnclosedWriteTag ''<dyad-write path="a">x</dyad-write> Done.''\<close>
proof -
  have a: \<open>write_open_offsets ''<dyad-write path="a">x</dyad-write> Done.'' = [0]\<close>
    by code_simp
  have b: \<open>write_close_at ''<dyad-write path="a">x</dyad-write> Done.'' 22\<close>
    by code_simp
  have \<open>\<not> hasUnclosedWriteTag ''<dyad-write path="a">x</dyad-write> Done.''\<close>
    using hasUnclosedWriteTag_last_open
      [of \<open>''<dyad-write path="a">x</dyad-write> Done.''\<close> 22, THEN conjunct2] b
    unfolding a by simp
  with a b show ?thesis by simp
qed

section \<open>tag-parser: dependency tags\<close>

text \<open>
  \<^verbatim>\<open>/<dyad-add-dependency packages="([^"]+)">[^<]*<\/dyad-add-dependency>/g\<close> at the head
  of \<open>s\<close>.  Both character classes exclude the character that has to follow them, so the
  greedy runs are the only ones that can match.  The result is the captured attribute
  value and the length of the match.
\<close>

definition match_add_dependency :: "string \<Rightarrow> (string \<times> nat) option" where
  \<open>match_add_dependency s =
     (case strip_prefix ''<dyad-add-dependency packages="'' s of
        None \<Rightarrow> None
      | Some r1 \<Rightarrow>
          (let pkgs = takeWhile (\<lambda>c. c \<noteq> CHR 0x22) r1 in
           if pkgs = [] then None
           else
             (case strip_prefix ''">'' (dropWhile (\<lambda>c. c \<noteq> CHR 0x22) r1) of
                None \<Rightarrow> None
              | Some r2 \<Rightarrow>
                  (case strip_prefix ''</dyad-add-dependency>''
                          (dropWhile (\<lambda>c. c \<noteq> CHR ''<'') r2) of
                     None \<Rightarrow> None
                   | Some rest \<Rightarrow> Some (pkgs, length s - length rest)))))\<close>

lemma match_add_dependency_iff:
  \<open>match_add_dependency s = Some (pkgs, n) \<longleftrightarrow>
     (\<exists>body rest. s = ''<dyad-add-dependency packages="'' @ pkgs @ ''">'' @ body
                       @ ''</dyad-add-dependency>'' @ rest
        \<and> pkgs \<noteq> [] \<and> CHR 0x22 \<notin> set pkgs \<and> CHR ''<'' \<notin> set body
        \<and> n = length s - length rest)\<close>
proof
  assume a: "match_add_dependency s = Some (pkgs, n)"
  let ?P = "\<lambda>c. c \<noteq> CHR 0x22" and ?Q = "\<lambda>c. c \<noteq> CHR ''<''"
  from a obtain r1 r2 rest where
    s1: \<open>s = ''<dyad-add-dependency packages="'' @ r1\<close>
    and pk: "pkgs = takeWhile ?P r1" "pkgs \<noteq> []"
    and s2: \<open>dropWhile ?P r1 = ''">'' @ r2\<close>
    and s3: "dropWhile ?Q r2 = ''</dyad-add-dependency>'' @ rest"
    and n: "n = length s - length rest"
    by (auto simp: match_add_dependency_def Let_def strip_prefix_iff split: option.splits if_splits)
  have "r1 = takeWhile ?P r1 @ dropWhile ?P r1" by simp
  then have r1: \<open>r1 = pkgs @ ''">'' @ r2\<close> unfolding s2 pk(1) .
  have "r2 = takeWhile ?Q r2 @ dropWhile ?Q r2" by simp
  then have r2: "r2 = takeWhile ?Q r2 @ ''</dyad-add-dependency>'' @ rest" unfolding s3 .
  have \<open>s = ''<dyad-add-dependency packages="'' @ pkgs @ ''">'' @ takeWhile ?Q r2
                       @ ''</dyad-add-dependency>'' @ rest\<close>
    by (rule trans[OF s1]) (use r1 r2 in simp)
  moreover have "CHR 0x22 \<notin> set pkgs" unfolding pk(1) by (auto dest: set_takeWhileD)
  moreover have "CHR ''<'' \<notin> set (takeWhile ?Q r2)" by (auto dest: set_takeWhileD)
  ultimately show \<open>\<exists>body rest. s = ''<dyad-add-dependency packages="'' @ pkgs @ ''">'' @ body
                       @ ''</dyad-add-dependency>'' @ rest
        \<and> pkgs \<noteq> [] \<and> CHR 0x22 \<notin> set pkgs \<and> CHR ''<'' \<notin> set body
        \<and> n = length s - length rest\<close>
    using pk(2) n by blast
next
  assume \<open>\<exists>body rest. s = ''<dyad-add-dependency packages="'' @ pkgs @ ''">'' @ body
                       @ ''</dyad-add-dependency>'' @ rest
        \<and> pkgs \<noteq> [] \<and> CHR 0x22 \<notin> set pkgs \<and> CHR ''<'' \<notin> set body
        \<and> n = length s - length rest\<close>
  then obtain body rest where s: \<open>s = ''<dyad-add-dependency packages="'' @ (pkgs @ ''">'' @ body
                       @ ''</dyad-add-dependency>'' @ rest)\<close>
    and c: "pkgs \<noteq> []" "CHR 0x22 \<notin> set pkgs" "CHR ''<'' \<notin> set body"
    and n: "n = length s - length rest" by auto
  let ?P = "\<lambda>c. c \<noteq> CHR 0x22" and ?Q = "\<lambda>c. c \<noteq> CHR ''<''"
  let ?r1 = \<open>pkgs @ ''">'' @ body @ ''</dyad-add-dependency>'' @ rest\<close>
  let ?r2 = \<open>body @ ''</dyad-add-dependency>'' @ rest\<close>
  have sp1: \<open>strip_prefix ''<dyad-add-dependency packages="'' s = Some ?r1\<close>
    unfolding strip_prefix_iff by (rule s)
  have tw1: "takeWhile ?P ?r1 = pkgs" using c(2) by (subst takeWhile_append2) auto
  have dw1: \<open>dropWhile ?P ?r1 = ''">'' @ ?r2\<close> using c(2) by (subst dropWhile_append2) auto
  have sp2: \<open>strip_prefix ''">'' (dropWhile ?P ?r1) = Some ?r2\<close>
    unfolding strip_prefix_iff by (rule dw1)
  have dw2: "dropWhile ?Q ?r2 = ''</dyad-add-dependency>'' @ rest"
    using c(3) by (subst dropWhile_append2) auto
  have sp3: "strip_prefix ''</dyad-add-dependency>'' (dropWhile ?Q ?r2) = Some rest"
    unfolding strip_prefix_iff by (rule dw2)
  show "match_add_dependency s = Some (pkgs, n)"
    unfolding match_add_dependency_def sp1 option.case Let_def tw1 sp2 sp3 using c(1) n by simp
qed

lemma match_add_dependency_bounds:
  assumes "match_add_dependency s = Some (pkgs, n)"
  shows "0 < n \<and> n \<le> length s"
proof -
  from assms obtain body rest where
    s: \<open>s = ''<dyad-add-dependency packages="'' @ pkgs @ ''">'' @ body
                       @ ''</dyad-add-dependency>'' @ rest\<close>
    and n: "n = length s - length rest"
    unfolding match_add_dependency_iff by blast
  have "length s = 31 + length pkgs + 2 + length body + 22 + length rest"
    by (subst s) simp
  then show ?thesis using n by simp
qed

text \<open>
  The loop of \<open>getAddDependencyPackages\<close>:
  \<^verbatim>\<open>packages.push(...match[1].split(" ").filter(Boolean))\<close> for every match.
\<close>

definition package_tokens :: "string \<Rightarrow> string list" where
  "package_tokens pkgs = filter (\<lambda>t. t \<noteq> []) (split_on CHR '' '' pkgs)"

function add_dependency_scan :: "string \<Rightarrow> nat \<Rightarrow> string list \<Rightarrow> string list" where
  "add_dependency_scan fullResponse lastIndex packages =
     (case regex_exec match_add_dependency (drop lastIndex fullResponse) of
        None \<Rightarrow> packages
      | Some (i, pkgs, n) \<Rightarrow>
          add_dependency_scan fullResponse (lastIndex + i + n)
            (packages @ filter (\<lambda>t. t \<noteq> []) (split_on CHR '' '' pkgs)))"
  by pat_completeness auto
termination
proof (relation "measure (\<lambda>(doc, lastIndex, _). length doc - lastIndex)", goal_cases)
  case 1
  show ?case by simp
next
  case (2 doc lastIndex packages x2 i y pkgs n)
  then have "regex_exec match_add_dependency (drop lastIndex doc) = Some (i, pkgs, n)" by simp
  from regex_exec_Some[OF this]
  have "i \<le> length (drop lastIndex doc)"
    "match_add_dependency (drop i (drop lastIndex doc)) = Some (pkgs, n)" by auto
  with match_add_dependency_bounds[of "drop i (drop lastIndex doc)" pkgs n]
  show ?case by auto
qed

definition getAddDependencyPackages :: "string \<Rightarrow> string list" where
  "getAddDependencyPackages fullResponse = add_dependency_scan fullResponse 0 []"

text \<open>
  The attribute values of the successive matches, in the order of the scan; and the
  tokens the specification describes (split on any white space).
\<close>

function add_dependency_values :: "string \<Rightarrow> nat \<Rightarrow> string list" where
  "add_dependency_values doc lastIndex =
     (case regex_exec match_add_dependency (drop lastIndex doc) of
        None \<Rightarrow> []
      | Some (i, pkgs, n) \<Rightarrow> pkgs # add_dependency_values doc (lastIndex + i + n))"
  by pat_completeness auto
termination
proof (relation "measure (\<lambda>(doc, lastIndex). length doc - lastIndex)", goal_cases)
  case 1
  show ?case by simp
next
  case (2 doc lastIndex x2 i y pkgs n)
  then have "regex_exec match_add_dependency (drop lastIndex doc) = Some (i, pkgs, n)" by simp
  from regex_exec_Some[OF this]
  have "i \<le> length (drop lastIndex doc)"
    "match_add_dependency (drop i (drop lastIndex doc)) = Some (pkgs, n)" by auto
  with match_add_dependency_bounds[of "drop i (drop lastIndex doc)" pkgs n]
  show ?case by auto
qed

lemma add_dependency_scan_values:
  "add_dependency_scan doc li acc = acc @ concat (map package_tokens (add_dependency_values doc li))"
proof (induction doc li acc rule: add_dependency_scan.induct)
  case (1 doc li acc)
  show ?case
  proof (cases "regex_exec match_add_dependency (drop li doc)")
    case None
    then show ?thesis by simp
  next
    case (Some a)
    then obtain i pkgs n where a: "a = (i, pkgs, n)" by (cases a) auto
    from "1.IH"[OF Some[unfolded a] refl refl] Some a show ?thesis
      by (simp add: package_tokens_def)
  qed
qed

text \<open>
  For comparison, the reading of the specification: the value is split at every
  white-space character (the ASCII ones are enough here).
\<close>

definition spec_whitespace :: "char \<Rightarrow> bool" where
  "spec_whitespace c = (c \<in> set [CHR 0x09, CHR 0x0A, CHR 0x0B, CHR 0x0C, CHR 0x0D, CHR 0x20])"

fun spec_whitespace_split :: "string \<Rightarrow> string list" where
  "spec_whitespace_split [] = [[]]"
| "spec_whitespace_split (c # cs) =
     (if spec_whitespace c then [] # spec_whitespace_split cs
      else (case spec_whitespace_split cs of
              piece # pieces \<Rightarrow> (c # piece) # pieces
            | [] \<Rightarrow> [[c]]))"

definition spec_whitespace_tokens :: "string \<Rightarrow> string list" where
  "spec_whitespace_tokens pkgs = filter (\<lambda>t. t \<noteq> []) (spec_whitespace_split pkgs)"

lemma package_tokens_props:
  "t \<in> set (package_tokens v) \<Longrightarrow> t \<noteq> [] \<and> CHR '' '' \<notin> set t"
  by (auto simp: package_tokens_def dest: split_on_no_sep)

text \<open>
  Claim C8 as stated (the attribute value is split on white space) fails: a tab inside
  the value does not separate two packages.  The code yields one token that holds the
  tab, where splitting on white space yields two.
\<close>

theorem getAddDependencyPackages_tab_counterexample:
  \<open>getAddDependencyPackages
      (''<dyad-add-dependency packages="react'' @ [CHR 0x09] @ ''lodash"></dyad-add-dependency>'')
     = [''react'' @ [CHR 0x09] @ ''lodash''] \<and>
   concat (map spec_whitespace_tokens (add_dependency_values
      (''<dyad-add-dependency packages="react'' @ [CHR 0x09] @ ''lodash"></dyad-add-dependency>'') 0))
     = [''react'', ''lodash'']\<close>
  by code_simp

text \<open>
  Claim C8, amended.  \<open>getAddDependencyPackages\<close> splits the \<open>packages\<close> value of
  every matched tag at each space character (U+0020, no other white space), drops the
  empty tokens, and concatenates the tokens of all matched tags in the order of the
  tags; nothing is removed as a duplicate.  Two tags with \<open>react lodash\<close> and \<open>zod\<close>
  yield \<open>react\<close>, \<open>lodash\<close>, \<open>zod\<close>.
\<close>

theorem getAddDependencyPackages_space_split:
  \<open>getAddDependencyPackages doc = concat (map package_tokens (add_dependency_values doc 0)) \<and>
   (\<forall>t\<in>set (package_tokens v). t \<noteq> [] \<and> CHR '' '' \<notin> set t) \<and>
   package_tokens v = filter (\<lambda>t. t \<noteq> []) (split_on CHR '' '' v) \<and>
   join '' '' (split_on CHR '' '' v) = v \<and>
   (\<forall>t\<in>set (split_on CHR '' '' v). CHR '' '' \<notin> set t) \<and>
   getAddDependencyPackages
     ''<dyad-add-dependency packages="react lodash"></dyad-add-dependency><dyad-add-dependency packages="zod"></dyad-add-dependency>''
     = [''react'', ''lodash'', ''zod'']\<close>
proof -
  have \<open>getAddDependencyPackages
     ''<dyad-add-dependency packages="react lodash"></dyad-add-dependency><dyad-add-dependency packages="zod"></dyad-add-dependency>''
     = [''react'', ''lodash'', ''zod'']\<close>
    by code_simp
  moreover have "getAddDependencyPackages doc = concat (map package_tokens (add_dependency_values doc 0))"
    by (simp only: getAddDependencyPackages_def add_dependency_scan_values append_Nil)
  moreover have "join '' '' (split_on CHR '' '' v) = v" by (rule join_split_on)
  ultimately show ?thesis
    using package_tokens_props[of _ v] split_on_no_sep[of _ "CHR '' ''" v]
    by (simp add: package_tokens_def)
qed

theorem getAddDependencyPackages_space_split_witness:
  \<open>add_dependency_values
      ''Deps: <dyad-add-dependency packages="react  zod"> </dyad-add-dependency> then <dyad-add-dependency packages="zod react"></dyad-add-dependency>'' 0
      = [''react  zod'', ''zod react''] \<and>
   getAddDependencyPackages
      ''Deps: <dyad-add-dependency packages="react  zod"> </dyad-add-dependency> then <dyad-add-dependency packages="zod react"></dyad-add-dependency>''
      = [''react'', ''zod'', ''zod'', ''react'']\<close>
proof -
  have v: \<open>add_dependency_values
      ''Deps: <dyad-add-dependency packages="react  zod"> </dyad-add-dependency> then <dyad-add-dependency packages="zod react"></dyad-add-dependency>'' 0
      = [''react  zod'', ''zod react'']\<close>
    by code_simp
  have t: "package_tokens ''react  zod'' = [''react'', ''zod'']"
    "package_tokens ''zod react'' = [''zod'', ''react'']"
    by code_simp+
  from getAddDependencyPackages_space_split[of
      \<open>''Deps: <dyad-add-dependency packages="react  zod"> </dyad-add-dependency> then <dyad-add-dependency packages="zod react"></dyad-add-dependency>''\<close>]
  show ?thesis unfolding v by (simp add: t)
qed

section \<open>tag-parser: chat summary\<close>

text \<open>
  \<^verbatim>\<open>/<dyad-chat-summary>([\s\S]*?)<\/dyad-chat-summary>/g\<close> at the head of \<open>s\<close>: the
  lazy body ends at the first closing marker after the opening marker.  The function
  calls \<open>exec\<close> once on a fresh expression, so it sees the leftmost match only;
  \<^verbatim>\<open>match?.[1]?.trim() ?? null\<close> is the trimmed capture, or null without a match.
\<close>

definition match_chat_summary :: "string \<Rightarrow> string option" where
  "match_chat_summary s =
     (if prefix ''<dyad-chat-summary>'' s then
        (case regex_exec (match_literal ''</dyad-chat-summary>'') (drop 19 s) of
           None \<Rightarrow> None
         | Some (k, _) \<Rightarrow> Some (take k (drop 19 s)))
      else None)"

definition getChatSummary :: "string \<Rightarrow> string option" where
  "getChatSummary fullResponse =
     (case regex_exec match_chat_summary fullResponse of
        None \<Rightarrow> None
      | Some (i, body) \<Rightarrow> Some (trim body))"

text \<open>
  A closed Summary tag stands at offset \<open>i\<close> with body \<open>body\<close>: the opening marker is
  at \<open>i\<close>, and \<open>body\<close> is the text between it and the nearest closing marker after it.
\<close>

definition summary_tag_at :: "string \<Rightarrow> nat \<Rightarrow> string \<Rightarrow> bool" where
  "summary_tag_at doc i body \<longleftrightarrow>
     prefix ''<dyad-chat-summary>'' (drop i doc) \<and>
     (\<exists>k. prefix ''</dyad-chat-summary>'' (drop (i + 19 + k) doc) \<and>
          (\<forall>j<k. \<not> prefix ''</dyad-chat-summary>'' (drop (i + 19 + j) doc)) \<and>
          body = take k (drop (i + 19) doc))"

lemma match_chat_summary_iff:
  "match_chat_summary (drop i doc) = Some body \<longleftrightarrow> summary_tag_at doc i body"
proof -
  let ?s = "drop (i + 19) doc"
  have d: "drop 19 (drop i doc) = ?s" by (simp add: add.commute)
  have dd: "\<And>k. drop (i + 19 + k) doc = drop k ?s" by (simp add: add.commute)
  have "match_chat_summary (drop i doc) = Some body \<longleftrightarrow>
      prefix ''<dyad-chat-summary>'' (drop i doc) \<and>
      (\<exists>k. regex_exec (match_literal ''</dyad-chat-summary>'') ?s = Some (k, ()) \<and> body = take k ?s)"
    unfolding match_chat_summary_def d by (auto split: option.splits)
  then show ?thesis unfolding summary_tag_at_def regex_exec_literal_iff dd conj_assoc .
qed

text \<open>
  Claim C9.  \<open>getChatSummary\<close> returns null exactly when the document holds no closed
  Summary tag; otherwise it returns the trimmed body of the first closed Summary tag,
  whatever tags follow it.
\<close>

theorem getChatSummary_first_closed:
  "(getChatSummary doc = None \<longleftrightarrow> (\<forall>i body. \<not> summary_tag_at doc i body)) \<and>
   (summary_tag_at doc i body \<and> (\<forall>j<i. \<forall>b. \<not> summary_tag_at doc j b)
      \<longrightarrow> getChatSummary doc = Some (trim body))"
proof (intro conjI impI)
  show "getChatSummary doc = None \<longleftrightarrow> (\<forall>i body. \<not> summary_tag_at doc i body)"
  proof
    assume "getChatSummary doc = None"
    then have n: "regex_exec match_chat_summary doc = None"
      by (auto simp: getChatSummary_def split: option.splits)
    show "\<forall>i body. \<not> summary_tag_at doc i body"
      using regex_exec_None[OF n] by (simp flip: match_chat_summary_iff)
  next
    assume a: "\<forall>i body. \<not> summary_tag_at doc i body"
    show "getChatSummary doc = None"
    proof (cases "regex_exec match_chat_summary doc")
      case None
      then show ?thesis by (simp add: getChatSummary_def)
    next
      case (Some r)
      then obtain i body where "regex_exec match_chat_summary doc = Some (i, body)" by (cases r) auto
      from regex_exec_Some[OF this] a show ?thesis by (simp add: match_chat_summary_iff)
    qed
  qed
next
  assume a: "summary_tag_at doc i body \<and> (\<forall>j<i. \<forall>b. \<not> summary_tag_at doc j b)"
  then have "match_chat_summary (drop i doc) = Some body"
    and "\<forall>j<i. match_chat_summary (drop j doc) = None"
    by (auto simp flip: match_chat_summary_iff)
  then have "regex_exec match_chat_summary doc = Some (i, body)" by (rule regex_exec_first)
  then show "getChatSummary doc = Some (trim body)" by (simp add: getChatSummary_def)
qed

theorem getChatSummary_first_closed_witness:
  "summary_tag_at ''ok <dyad-chat-summary> Added toggle </dyad-chat-summary><dyad-chat-summary>Later</dyad-chat-summary>'' 3 '' Added toggle '' \<and>
   getChatSummary ''ok <dyad-chat-summary> Added toggle </dyad-chat-summary><dyad-chat-summary>Later</dyad-chat-summary>'' = Some ''Added toggle'' \<and>
   (\<forall>i body. \<not> summary_tag_at ''<dyad-chat-summary>never closed'' i body)"
proof -
  let ?D = "''ok <dyad-chat-summary> Added toggle </dyad-chat-summary><dyad-chat-summary>Later</dyad-chat-summary>''"
  have m: "match_chat_summary (drop 3 ?D) = Some '' Added toggle ''" by code_simp
  then have s: "summary_tag_at ?D 3 '' Added toggle ''" by (simp only: match_chat_summary_iff)
  have "match_chat_summary (drop 0 ?D) = None" "match_chat_summary (drop 1 ?D) = None"
    "match_chat_summary (drop 2 ?D) = None"
    by code_simp+
  then have f: "\<forall>j<3. \<forall>b. \<not> summary_tag_at ?D j b"
    by (auto simp: less_Suc_eq numeral_3_eq_3 simp flip: match_chat_summary_iff)
  have t: "trim '' Added toggle '' = ''Added toggle''" by code_simp
  have n: "getChatSummary ''<dyad-chat-summary>never closed'' = None" by code_simp
  from getChatSummary_first_closed[of ?D 3 "'' Added toggle ''"] s f t
    getChatSummary_first_closed[of "''<dyad-chat-summary>never closed''"] n
  show ?thesis by simp
qed

section \<open>tag-parser: escaping tags in reasoning text\<close>

text \<open>
  \<open>String.prototype.replace\<close> with a global pattern that is a literal text: the
  occurrences are replaced from left to right, and the search goes on after each
  occurrence.  \<open>skip\<close> counts the characters of an occurrence still to be passed over.
\<close>

fun replace_from :: "string \<Rightarrow> string \<Rightarrow> nat \<Rightarrow> string \<Rightarrow> string" where
  "replace_from pat rep skip [] = []"
| "replace_from pat rep skip (c # cs) =
     (if 0 < skip then replace_from pat rep (skip - 1) cs
      else if prefix pat (c # cs) then rep @ replace_from pat rep (length pat - 1) cs
      else c # replace_from pat rep 0 cs)"

definition replace_all :: "string \<Rightarrow> string \<Rightarrow> string \<Rightarrow> string" where
  "replace_all pat rep s = replace_from pat rep 0 s"

text \<open>
  U+FF1C, the full-width less-than sign, in UTF-8.
\<close>

definition fullwidth_lt :: string where
  "fullwidth_lt = [CHR 0xEF, CHR 0xBC, CHR 0x9C]"

definition escapeDyadTags :: "string \<Rightarrow> string" where
  "escapeDyadTags text =
     replace_all ''</dyad'' (fullwidth_lt @ ''/dyad'')
       (replace_all ''<dyad'' (fullwidth_lt @ ''dyad'') text)"

lemma escapeDyadTags_Nil: "escapeDyadTags [] = []"
  by (simp add: escapeDyadTags_def replace_all_def)

section \<open>file-operations: path resolution\<close>

text \<open>
  An exception is an \<open>Error\<close> object; only its message is observed.
\<close>

datatype exn = Error (message: string)

text \<open>
  \<open>path.resolve\<close> of Node.js on a POSIX system, with the working directory \<open>cwd\<close>
  (\<open>process.cwd()\<close>, an absolute path) as a parameter.  The arguments are taken from
  right to left until an absolute one is found, each followed by a slash; empty
  arguments are skipped; the working directory comes last.
\<close>

fun resolve_loop :: "string list \<Rightarrow> string \<Rightarrow> bool \<Rightarrow> string \<times> bool" where
  "resolve_loop [] resolvedPath resolvedAbsolute = (resolvedPath, resolvedAbsolute)"
| "resolve_loop (p # ps) resolvedPath resolvedAbsolute =
     (if resolvedAbsolute then (resolvedPath, resolvedAbsolute)
      else if p = [] then resolve_loop ps resolvedPath resolvedAbsolute
      else resolve_loop ps (p @ ''/'' @ resolvedPath) (hd p = CHR ''/''))"

text \<open>
  \<open>normalizeString\<close> goes through the segments between slashes: an empty segment and
  \<open>.\<close> are dropped, \<open>..\<close> removes the segment before it (and is kept only in a relative
  path that has nothing left to remove), any other segment is kept.  \<open>res\<close> is the stack
  of the segments kept so far, the last one first.
\<close>

fun normalize_segments :: "bool \<Rightarrow> string list \<Rightarrow> string list \<Rightarrow> string list" where
  "normalize_segments allowAboveRoot res [] = rev res"
| "normalize_segments allowAboveRoot res (seg # segs) =
     (if seg = [] \<or> seg = ''.'' then normalize_segments allowAboveRoot res segs
      else if seg = ''..'' then
        (case res of
           [] \<Rightarrow> normalize_segments allowAboveRoot (if allowAboveRoot then [''..''] else []) segs
         | r # rs \<Rightarrow>
             if r = ''..''
             then normalize_segments allowAboveRoot (if allowAboveRoot then ''..'' # res else res) segs
             else normalize_segments allowAboveRoot rs segs)
      else normalize_segments allowAboveRoot (seg # res) segs)"

definition normalizeString :: "string \<Rightarrow> bool \<Rightarrow> string" where
  "normalizeString path allowAboveRoot =
     join ''/'' (normalize_segments allowAboveRoot [] (split_on CHR ''/'' path))"

definition path_resolve :: "string \<Rightarrow> string list \<Rightarrow> string" where
  "path_resolve cwd args =
     (case resolve_loop (rev args @ [cwd]) [] False of
        (resolvedPath, resolvedAbsolute) \<Rightarrow>
          (let n = normalizeString resolvedPath (\<not> resolvedAbsolute) in
           if resolvedAbsolute then ''/'' @ n
           else if n \<noteq> [] then n else ''.''))"

text \<open>
  \<open>safeJoin\<close> of file-operations.ts: the test is \<open>joined.startsWith(normalizedBase)\<close>,
  a comparison of strings.
\<close>

definition safeJoin :: "string \<Rightarrow> string \<Rightarrow> string \<Rightarrow> exn + string" where
  "safeJoin cwd basePath relativePath =
     (let normalizedBase = path_resolve cwd [basePath];
          joined = path_resolve cwd [normalizedBase, relativePath] in
      if \<not> prefix normalizedBase joined
      then Inl (Error (''Path traversal attempt detected: '' @ relativePath
                        @ '' escapes '' @ basePath))
      else Inr joined)"

text \<open>
  A path lies inside a root when the root's segments are an initial part of the path's
  segments (the root itself included).
\<close>

definition path_segments :: "string \<Rightarrow> string list" where
  "path_segments p = filter (\<lambda>s. s \<noteq> []) (split_on CHR ''/'' p)"

definition path_inside :: "string \<Rightarrow> string \<Rightarrow> bool" where
  "path_inside root p = prefix (path_segments root) (path_segments p)"

definition absolute :: "string \<Rightarrow> bool" where
  "absolute p = (p \<noteq> [] \<and> hd p = CHR ''/'')"

definition clean_segment :: "string \<Rightarrow> bool" where
  "clean_segment s = (s \<noteq> [] \<and> CHR ''/'' \<notin> set s \<and> s \<noteq> ''.'' \<and> s \<noteq> ''..'')"

lemma join_append:
  "join sep (xs @ ys) =
     (if xs = [] then join sep ys else if ys = [] then join sep xs
      else join sep xs @ sep @ join sep ys)"
proof (induction sep xs rule: join.induct)
  case (1 sep)
  show ?case by simp
next
  case (2 sep x)
  show ?case by (cases ys) auto
next
  case (3 sep x y ys')
  then show ?case by auto
qed

lemma join_prefix: "prefix xs ys \<Longrightarrow> prefix (join sep xs) (join sep ys)"
  by (auto simp: prefix_def join_append)

lemma split_on_append_sep:
  "split_on sep (a @ sep # b) = split_on sep a @ split_on sep b"
proof (induction a)
  case Nil
  show ?case by simp
next
  case (Cons c cs)
  obtain t ts where "split_on sep cs = t # ts"
    using split_on_nonempty[of sep cs] by (cases "split_on sep cs") auto
  with Cons show ?case by auto
qed

lemma split_on_single: "sep \<notin> set s \<Longrightarrow> split_on sep s = [s]"
  by (induction s) auto

lemma split_on_join:
  "segs \<noteq> [] \<Longrightarrow> \<forall>s\<in>set segs. sep \<notin> set s \<Longrightarrow> split_on sep (join [sep] segs) = segs"
proof (induction "[sep]" segs rule: join.induct)
  case 1
  then show ?case by simp
next
  case (2 x)
  then show ?case by (simp add: split_on_single)
next
  case (3 x y ys)
  then show ?case by (simp add: split_on_append_sep split_on_single)
qed

lemma path_segments_join:
  assumes "\<forall>s\<in>set segs. clean_segment s"
  shows "path_segments (''/'' @ join ''/'' segs) = segs"
proof (cases "segs = []")
  case True
  then show ?thesis by (simp add: path_segments_def)
next
  case False
  have "\<forall>s\<in>set segs. CHR ''/'' \<notin> set s" using assms by (simp add: clean_segment_def)
  with False have "split_on CHR ''/'' (join ''/'' segs) = segs" by (rule split_on_join)
  moreover have "filter (\<lambda>s. s \<noteq> []) segs = segs"
    using assms by (auto simp: clean_segment_def intro: filter_True)
  ultimately show ?thesis by (simp add: path_segments_def)
qed

lemma normalize_segments_clean:
  "\<forall>s\<in>set res. clean_segment s \<Longrightarrow> \<forall>s\<in>set segs. CHR ''/'' \<notin> set s \<Longrightarrow>
     \<forall>s\<in>set (normalize_segments False res segs). clean_segment s"
proof (induction segs arbitrary: res)
  case Nil
  then show ?case by simp
next
  case (Cons seg segs)
  note IH = Cons.IH and prems = Cons.prems
  have tl: "\<forall>s\<in>set segs. CHR ''/'' \<notin> set s" using prems(2) by simp
  show ?case
  proof (cases "seg = [] \<or> seg = ''.''")
    case True
    then show ?thesis using IH[OF prems(1) tl] by auto
  next
    case False
    show ?thesis
    proof (cases "seg = ''..''")
      case True
      show ?thesis
      proof (cases res)
        case Nil
        then show ?thesis using True IH[of "[]", OF _ tl] by simp
      next
        case (Cons r rs)
        have "\<forall>s\<in>set rs. clean_segment s" using prems(1) Cons by simp
        then show ?thesis using True Cons IH[OF _ tl, of rs] IH[OF prems(1) tl] by simp
      qed
    next
      case ndd: False
      have "clean_segment seg" using False ndd prems(2) by (simp add: clean_segment_def)
      then have "\<forall>s\<in>set (seg # res). clean_segment s" using prems(1) by simp
      from IH[OF this tl] False ndd show ?thesis by simp
    qed
  qed
qed

lemma normalize_segments_clean_id:
  "\<forall>s\<in>set segs. clean_segment s \<Longrightarrow> normalize_segments a res segs = rev res @ segs"
  by (induction segs arbitrary: res) (auto simp: clean_segment_def)

lemma normalize_segments_append:
  "normalize_segments a res (xs @ ys) = normalize_segments a (rev (normalize_segments a res xs)) ys"
  by (induction xs arbitrary: res) (auto split: list.splits)

lemma resolve_loop_absolute:
  "absolute cwd \<Longrightarrow> snd (resolve_loop (ps @ [cwd]) rp ab)"
  by (induction ps arbitrary: rp ab) (auto simp: absolute_def)

lemma path_resolve_form:
  assumes "absolute cwd"
  shows "\<exists>segs. path_resolve cwd args = ''/'' @ join ''/'' segs \<and> (\<forall>s\<in>set segs. clean_segment s)"
proof -
  obtain rp ab where r: "resolve_loop (rev args @ [cwd]) [] False = (rp, ab)" by force
  have ab using resolve_loop_absolute[OF assms, of "rev args" "[]" False] r by simp
  let ?segs = "normalize_segments False [] (split_on CHR ''/'' rp)"
  have "path_resolve cwd args = ''/'' @ join ''/'' ?segs"
    using r \<open>ab\<close> by (simp add: path_resolve_def normalizeString_def)
  moreover have "\<forall>s\<in>set ?segs. clean_segment s"
    by (rule normalize_segments_clean) (auto dest: split_on_no_sep)
  ultimately show ?thesis by blast
qed

lemma path_resolve_relative:
  assumes "absolute cwd" and B: "\<forall>s\<in>set B. clean_segment s"
    and rel: "rel \<noteq> []" "hd rel \<noteq> CHR ''/''"
  shows "path_resolve cwd [''/'' @ join ''/'' B, rel] =
           ''/'' @ join ''/'' (normalize_segments False (rev B) (split_on CHR ''/'' rel))"
proof -
  let ?nb = "''/'' @ join ''/'' B"
  have r: "resolve_loop (rev [?nb, rel] @ [cwd]) [] False = (?nb @ ''/'' @ rel @ ''/'', True)"
    using rel by simp
  have noslash: "\<forall>s\<in>set B. CHR ''/'' \<notin> set s" using B by (simp add: clean_segment_def)
  have sB: "split_on CHR ''/'' (join ''/'' B) = (if B = [] then [[]] else B)"
    using split_on_join[of B "CHR ''/''"] noslash by simp
  have "split_on CHR ''/'' (?nb @ ''/'' @ rel @ ''/'')
      = [] # split_on CHR ''/'' (join ''/'' B) @ split_on CHR ''/'' rel @ [[]]"
    by (simp add: split_on_append_sep)
  then have "normalize_segments False [] (split_on CHR ''/'' (?nb @ ''/'' @ rel @ ''/''))
      = normalize_segments False [] (B @ split_on CHR ''/'' rel @ [[]])"
    unfolding sB by (cases "B = []") simp_all
  also have "\<dots> = normalize_segments False (rev B) (split_on CHR ''/'' rel @ [[]])"
    by (subst normalize_segments_append) (simp add: normalize_segments_clean_id[OF B])
  also have "\<dots> = normalize_segments False (rev B) (split_on CHR ''/'' rel)"
    by (subst normalize_segments_append) simp
  finally show ?thesis
    unfolding path_resolve_def r by (simp add: normalizeString_def)
qed

lemma prefix_segment_slash:
  assumes "prefix (x @ CHR ''/'' # y) (e @ CHR ''/'' # p)" "CHR ''/'' \<notin> set x" "CHR ''/'' \<notin> set e"
  shows "x = e"
proof -
  from assms(1) obtain r where "e @ CHR ''/'' # p = x @ CHR ''/'' # (y @ r)"
    by (auto simp: prefix_def)
  then have "takeWhile (\<lambda>c. c \<noteq> CHR ''/'') (e @ CHR ''/'' # p)
      = takeWhile (\<lambda>c. c \<noteq> CHR ''/'') (x @ CHR ''/'' # (y @ r))" by simp
  moreover have "takeWhile (\<lambda>c. c \<noteq> CHR ''/'') e = e" "takeWhile (\<lambda>c. c \<noteq> CHR ''/'') x = x"
    using assms(2,3) by (auto simp: takeWhile_eq_all_conv)
  ultimately show ?thesis by (simp add: takeWhile_tail)
qed

lemma safeJoin_src:
  assumes "absolute cwd"
  shows "\<exists>p. safeJoin cwd root ''src/a/b.ts'' = Inr p \<and>
           path_segments p = path_segments (path_resolve cwd [root]) @ [''src'', ''a'', ''b.ts'']"
proof -
  obtain B where nb: "path_resolve cwd [root] = ''/'' @ join ''/'' B" and B: "\<forall>s\<in>set B. clean_segment s"
    using path_resolve_form[OF assms] by blast
  have j: "path_resolve cwd [''/'' @ join ''/'' B, ''src/a/b.ts''] = ''/'' @ join ''/'' (B @ [''src'', ''a'', ''b.ts''])"
    by (subst path_resolve_relative[OF assms B]) simp_all
  have cl: "\<forall>s\<in>set (B @ [''src'', ''a'', ''b.ts'']). clean_segment s"
    using B by (simp add: clean_segment_def)
  have "prefix (''/'' @ join ''/'' B) (''/'' @ join ''/'' (B @ [''src'', ''a'', ''b.ts'']))"
    by (intro same_prefix_prefix[THEN iffD2] join_prefix) simp
  then have "safeJoin cwd root ''src/a/b.ts'' = Inr (''/'' @ join ''/'' (B @ [''src'', ''a'', ''b.ts'']))"
    unfolding safeJoin_def Let_def nb j by simp
  moreover have "path_segments (''/'' @ join ''/'' (B @ [''src'', ''a'', ''b.ts''])) = B @ [''src'', ''a'', ''b.ts'']"
    using cl by (rule path_segments_join)
  moreover have "path_segments (path_resolve cwd [root]) = B"
    unfolding nb using B by (rule path_segments_join)
  ultimately show ?thesis by simp
qed

lemma safeJoin_etc_passwd:
  assumes "absolute cwd"
    and "path_segments (path_resolve cwd [root]) = A @ [x, y]" "x \<noteq> ''etc''"
  shows "safeJoin cwd root ''../../etc/passwd'' =
           Inl (Error (''Path traversal attempt detected: ../../etc/passwd escapes '' @ root))"
proof -
  obtain B where nb: "path_resolve cwd [root] = ''/'' @ join ''/'' B" and B: "\<forall>s\<in>set B. clean_segment s"
    using path_resolve_form[OF assms(1)] by blast
  have "path_segments (path_resolve cwd [root]) = B"
    unfolding nb using B by (rule path_segments_join)
  then have BA: "B = A @ [x, y]" using assms(2) by simp
  have xy: "clean_segment x" "clean_segment y" using B BA by auto
  have j: "path_resolve cwd [''/'' @ join ''/'' B, ''../../etc/passwd''] = ''/'' @ join ''/'' (A @ [''etc'', ''passwd''])"
    using xy by (subst path_resolve_relative[OF assms(1) B]) (simp_all add: BA clean_segment_def)
  have "\<not> prefix (''/'' @ join ''/'' B) (''/'' @ join ''/'' (A @ [''etc'', ''passwd'']))"
  proof
    assume "prefix (''/'' @ join ''/'' B) (''/'' @ join ''/'' (A @ [''etc'', ''passwd'']))"
    then have "prefix (join ''/'' (A @ [x, y])) (join ''/'' (A @ [''etc'', ''passwd'']))"
      unfolding BA by simp
    then have "prefix (x @ CHR ''/'' # y) (''etc'' @ CHR ''/'' # ''passwd'')"
      by (cases "A = []") (simp_all add: join_append)
    then have "x = ''etc''"
      by (rule prefix_segment_slash) (use xy in \<open>simp_all add: clean_segment_def\<close>)
    with assms(3) show False by simp
  qed
  then show ?thesis
    unfolding safeJoin_def Let_def nb j by simp
qed

lemma safeJoin_inside:
  assumes "absolute cwd"
    and "path_inside (path_resolve cwd [root]) (path_resolve cwd [path_resolve cwd [root], rel])"
  shows "safeJoin cwd root rel = Inr (path_resolve cwd [path_resolve cwd [root], rel])"
proof -
  obtain B where nb: "path_resolve cwd [root] = ''/'' @ join ''/'' B" and B: "\<forall>s\<in>set B. clean_segment s"
    using path_resolve_form[OF assms(1)] by blast
  obtain J where j: "path_resolve cwd [path_resolve cwd [root], rel] = ''/'' @ join ''/'' J"
    and J: "\<forall>s\<in>set J. clean_segment s"
    using path_resolve_form[OF assms(1)] by blast
  have "prefix B J"
    using assms(2) unfolding path_inside_def nb j[unfolded nb]
    by (simp only: path_segments_join[OF B] path_segments_join[OF J])
  then have "prefix (''/'' @ join ''/'' B) (''/'' @ join ''/'' J)"
    by (intro same_prefix_prefix[THEN iffD2] join_prefix)
  then show ?thesis
    unfolding safeJoin_def Let_def nb j[unfolded nb] by simp
qed

text \<open>
  What the test does establish.  \<open>safeJoin\<close> either throws the path-traversal error or
  returns the path that \<open>path.resolve\<close> gives for the relative path against the root, an
  absolute path that has the root's normalised path as an initial part of its text.
  It throws only when the resolved path is not inside the root, so every path inside
  the root is returned.  Resolving \<open>../../etc/passwd\<close> throws for every root that has
  at least two segments and whose parent directory is not named \<open>etc\<close>; resolving
  \<open>src/a/b.ts\<close> gives the descendant \<open>src/a/b.ts\<close> of the root, for every root.
\<close>

lemma safeJoin_resolved_or_error:
  assumes "absolute cwd"
  shows
   "(\<forall>p. safeJoin cwd root rel = Inr p \<longrightarrow>
        p = path_resolve cwd [path_resolve cwd [root], rel] \<and> absolute p \<and>
        prefix (path_resolve cwd [root]) p) \<and>
    (\<forall>e. safeJoin cwd root rel = Inl e \<longrightarrow>
        e = Error (''Path traversal attempt detected: '' @ rel @ '' escapes '' @ root) \<and>
        \<not> path_inside (path_resolve cwd [root]) (path_resolve cwd [path_resolve cwd [root], rel])) \<and>
    (path_segments (path_resolve cwd [root]) = A @ [x, y] \<and> x \<noteq> ''etc'' \<longrightarrow>
        safeJoin cwd root ''../../etc/passwd'' =
          Inl (Error (''Path traversal attempt detected: ../../etc/passwd escapes '' @ root))) \<and>
    (\<exists>p. safeJoin cwd root ''src/a/b.ts'' = Inr p \<and>
         path_inside (path_resolve cwd [root]) p \<and>
         path_segments p = path_segments (path_resolve cwd [root]) @ [''src'', ''a'', ''b.ts''])"
proof (intro conjI allI impI)
  fix p assume a: "safeJoin cwd root rel = Inr p"
  then have p: "p = path_resolve cwd [path_resolve cwd [root], rel]"
    unfolding safeJoin_def Let_def by (simp split: if_splits)
  show "p = path_resolve cwd [path_resolve cwd [root], rel]" by (rule p)
  show "prefix (path_resolve cwd [root]) p"
    using a unfolding safeJoin_def Let_def by (simp split: if_splits)
  obtain J where "path_resolve cwd [path_resolve cwd [root], rel] = ''/'' @ join ''/'' J"
    using path_resolve_form[OF assms] by blast
  then show "absolute p" unfolding p by (simp add: absolute_def)
next
  fix e assume a: "safeJoin cwd root rel = Inl e"
  then show "e = Error (''Path traversal attempt detected: '' @ rel @ '' escapes '' @ root)"
    unfolding safeJoin_def Let_def by (simp split: if_splits)
  show "\<not> path_inside (path_resolve cwd [root]) (path_resolve cwd [path_resolve cwd [root], rel])"
  proof
    assume "path_inside (path_resolve cwd [root]) (path_resolve cwd [path_resolve cwd [root], rel])"
    from safeJoin_inside[OF assms this] a show False by simp
  qed
next
  assume h: "path_segments (path_resolve cwd [root]) = A @ [x, y] \<and> x \<noteq> ''etc''"
  show "safeJoin cwd root ''../../etc/passwd'' =
          Inl (Error (''Path traversal attempt detected: ../../etc/passwd escapes '' @ root))"
    by (rule safeJoin_etc_passwd[OF assms h[THEN conjunct1] h[THEN conjunct2]])
next
  from safeJoin_src[OF assms, of root]
  obtain p where p: "safeJoin cwd root ''src/a/b.ts'' = Inr p"
    "path_segments p = path_segments (path_resolve cwd [root]) @ [''src'', ''a'', ''b.ts'']"
    by blast
  from p(2) have "path_inside (path_resolve cwd [root]) p"
    unfolding path_inside_def by simp
  with p show "\<exists>p. safeJoin cwd root ''src/a/b.ts'' = Inr p \<and>
         path_inside (path_resolve cwd [root]) p \<and>
         path_segments p = path_segments (path_resolve cwd [root]) @ [''src'', ''a'', ''b.ts'']"
    by blast
qed

lemma safeJoin_examples:
  "absolute ''/work'' \<and>
   safeJoin ''/work'' ''app'' ''src/../lib/x.ts'' = Inr ''/work/app/lib/x.ts'' \<and>
   prefix (path_resolve ''/work'' [''app'']) ''/work/app/lib/x.ts'' \<and>
   path_segments (path_resolve ''/work'' [''app'']) = [] @ [''work'', ''app''] \<and>
   safeJoin ''/work'' ''app'' ''../../etc/passwd'' =
     Inl (Error ''Path traversal attempt detected: ../../etc/passwd escapes app'') \<and>
   safeJoin ''/work'' ''app'' ''/etc/passwd'' =
     Inl (Error ''Path traversal attempt detected: /etc/passwd escapes app'') \<and>
   \<not> path_inside (path_resolve ''/work'' [''app''])
        (path_resolve ''/work'' [path_resolve ''/work'' [''app''], ''/etc/passwd''])"
proof -
  have c: "absolute ''/work''" by (simp add: absolute_def)
  have r: "safeJoin ''/work'' ''app'' ''src/../lib/x.ts'' = Inr ''/work/app/lib/x.ts''"
    by code_simp
  have s: "path_segments (path_resolve ''/work'' [''app'']) = [] @ [''work'', ''app'']"
    by code_simp
  have e: "safeJoin ''/work'' ''app'' ''/etc/passwd'' =
     Inl (Error ''Path traversal attempt detected: /etc/passwd escapes app'')"
    by code_simp
  note t1 = safeJoin_resolved_or_error[OF c, of "''app''" "''src/../lib/x.ts''" "[]" "''work''" "''app''"]
  note t2 = safeJoin_resolved_or_error[OF c, of "''app''" "''/etc/passwd''" "[]" "''work''" "''app''"]
  have "prefix (path_resolve ''/work'' [''app'']) ''/work/app/lib/x.ts''"
    using t1 r by blast
  moreover have "safeJoin ''/work'' ''app'' ''../../etc/passwd'' =
     Inl (Error ''Path traversal attempt detected: ../../etc/passwd escapes app'')"
    using t1 s by simp
  moreover have "\<not> path_inside (path_resolve ''/work'' [''app''])
        (path_resolve ''/work'' [path_resolve ''/work'' [''app''], ''/etc/passwd''])"
    using t2 e by blast
  ultimately show ?thesis using c r s e by blast
qed

text \<open>
  With the root \<open>/\<close> every absolute path is inside the root: \<open>../../etc/passwd\<close> resolves
  to \<open>/etc/passwd\<close> and is returned, in agreement with containment.
\<close>

lemma safeJoin_root_slash:
  "safeJoin ''/work'' ''/'' ''../../etc/passwd'' = Inr ''/etc/passwd'' \<and>
   path_inside ''/'' ''/etc/passwd''"
  by code_simp

text \<open>
  Claim C1 does not hold of the code.  The claim: \<open>safeJoin\<close> either throws the
  path-traversal error or returns a path that lies inside the root.  The test is
  \<open>joined.startsWith(normalizedBase)\<close>, on the text of the two paths and not on their
  segments: for the root \<open>/home/user/app\<close> the relative path \<open>../app-evil/x\<close> resolves to
  \<open>/home/user/app-evil/x\<close>, in a sibling directory whose name begins with the name of the
  root.  The path is returned, and it is not inside the root.
\<close>

theorem safeJoin_sibling_escapes:
  "safeJoin ''/work'' ''/home/user/app'' ''../app-evil/x'' = Inr ''/home/user/app-evil/x'' \<and>
   \<not> path_inside ''/home/user/app'' ''/home/user/app-evil/x'' \<and>
   path_resolve ''/work'' [''/home/user/app''] = ''/home/user/app''"
  by code_simp

section \<open>file-operations: applying the operations\<close>

text \<open>
  \<open>path.dirname\<close> of Node.js on a POSIX system: the path up to the last slash that
  follows a character other than a slash, trailing slashes ignored; the first character
  is never the slash looked for.
\<close>

definition dirname :: "string \<Rightarrow> string" where
  "dirname p =
     (if p = [] then ''.''
      else
        (let hasRoot = (hd p = CHR ''/'');
             afterTrailing = dropWhile (\<lambda>c. c = CHR ''/'') (rev (tl p));
             upToSlash = dropWhile (\<lambda>c. c \<noteq> CHR ''/'') afterTrailing;
             endIndex = length upToSlash in
         if upToSlash = [] then (if hasRoot then ''/'' else ''.'')
         else if hasRoot \<and> endIndex = 1 then ''//''
         else take endIndex p))"

text \<open>
  What \<open>fs.writeFileSync\<close> is given: the text of the tag, or the bytes read from an
  uploaded file.  The records are those of types.ts; an optional field is an option.
\<close>

datatype file_data = TextData string | BufferData string

record write_tag =
  wt_path :: string
  wt_content :: string
  wt_description :: "string option"

record rename_tag =
  rt_from :: string
  rt_to :: string

record sql_query_tag =
  sq_content :: string
  sq_description :: "string option"

datatype command_type = Rebuild | Restart | Refresh

record parsed_response =
  writeTags :: "write_tag list"
  renameTags :: "rename_tag list"
  deletePaths :: "string list"
  addDependencies :: "string list"
  searchReplaceTags :: "write_tag list"
  sqlQueries :: "sql_query_tag list"
  commands :: "command_type list"
  chatSummary :: "string option"

record file_operation_result =
  writtenFiles :: "string list"
  renamedFiles :: "string list"
  deletedFiles :: "string list"
  addedPackages :: "string list"
  hasChanges :: bool
  error :: "string option"

record upload_info =
  ui_filePath :: string
  ui_originalName :: string

text \<open>
  The file system and everything the callbacks touch are the world \<open>'w\<close>.  A call either
  returns or throws, and leaves a world.  \<open>node_fs\<close> holds the functions of \<open>node:fs\<close>
  that \<open>applyFileChanges\<close> calls, with \<open>process.cwd()\<close>; \<open>lstatIsDirectory\<close> is
  \<open>fs.lstatSync(p).isDirectory()\<close>, and \<open>readFile\<close> is \<open>fsAsync.readFile\<close>.  The
  callbacks of the options are given (the defaults \<open>console.log\<close>, \<open>console.warn\<close> and
  \<open>console.error\<close> are callbacks like any other).
\<close>

type_synonym 'w effect = "'w \<Rightarrow> exn option \<times> 'w"

record 'w node_fs =
  cwd :: string
  existsSync :: "string \<Rightarrow> 'w \<Rightarrow> bool"
  lstatIsDirectory :: "string \<Rightarrow> 'w \<Rightarrow> exn + bool"
  rmdirSync :: "string \<Rightarrow> 'w effect"
  unlinkSync :: "string \<Rightarrow> 'w effect"
  mkdirSync :: "string \<Rightarrow> 'w effect"
  renameSync :: "string \<Rightarrow> string \<Rightarrow> 'w effect"
  writeFileSync :: "string \<Rightarrow> file_data \<Rightarrow> 'w effect"
  readFile :: "string \<Rightarrow> 'w \<Rightarrow> exn + string"

record 'w apply_options =
  appPath :: string
  parsedResponse :: parsed_response
  onLog :: "string \<Rightarrow> 'w effect"
  onWarn :: "string \<Rightarrow> 'w effect"
  onError :: "string \<Rightarrow> exn \<Rightarrow> 'w effect"
  fileUploadsMap :: "(string \<Rightarrow> upload_info option) option"

text \<open>
  The state of a run: the arrays \<open>writtenFiles\<close>, \<open>renamedFiles\<close>, \<open>deletedFiles\<close> and
  \<open>errors\<close> (of which only the messages are ever read), and the world.  Two lists are
  added for the statements below and are read by no branch of the code: \<open>st_log\<close>
  lists the calls of the three callbacks, and \<open>st_attempted\<close> lists the operations whose
  loop iteration has started.
\<close>

datatype log_entry = Logged string | Warned string | Errored string

datatype file_op = DeleteOp string | RenameOp rename_tag | WriteOp write_tag

record 'w apply_state =
  st_written :: "string list"
  st_renamed :: "string list"
  st_deleted :: "string list"
  st_errors :: "string list"
  st_log :: "log_entry list"
  st_attempted :: "file_op list"
  st_world :: "'w"

type_synonym 'w action = "'w apply_state \<Rightarrow> exn option \<times> 'w apply_state"

text \<open>
  Sequencing, \<open>try\<close>/\<open>catch\<close>, a call on the world, an assignment, and the calls of the
  callbacks.  A \<open>for ... of\<close> loop stops at the first exception that leaves its body.
\<close>

definition and_then :: "'w action \<Rightarrow> 'w action \<Rightarrow> 'w action" where
  "and_then a b s = (case a s of (Some e, s') \<Rightarrow> (Some e, s') | (None, s') \<Rightarrow> b s')"

definition try_catch :: "'w action \<Rightarrow> (exn \<Rightarrow> 'w action) \<Rightarrow> 'w action" where
  "try_catch body handler s =
     (case body s of (None, s') \<Rightarrow> (None, s') | (Some e, s') \<Rightarrow> handler e s')"

definition perform :: "'w effect \<Rightarrow> 'w action" where
  "perform f s = (case f (st_world s) of (thrown, w) \<Rightarrow> (thrown, s\<lparr>st_world := w\<rparr>))"

definition modify :: "('w apply_state \<Rightarrow> 'w apply_state) \<Rightarrow> 'w action" where
  "modify f s = (None, f s)"

definition call_onLog :: "'w apply_options \<Rightarrow> string \<Rightarrow> 'w action" where
  "call_onLog options msg =
     and_then (modify (\<lambda>s. s\<lparr>st_log := st_log s @ [Logged msg]\<rparr>)) (perform (onLog options msg))"

definition call_onWarn :: "'w apply_options \<Rightarrow> string \<Rightarrow> 'w action" where
  "call_onWarn options msg =
     and_then (modify (\<lambda>s. s\<lparr>st_log := st_log s @ [Warned msg]\<rparr>)) (perform (onWarn options msg))"

definition call_onError :: "'w apply_options \<Rightarrow> string \<Rightarrow> exn \<Rightarrow> 'w action" where
  "call_onError options msg e =
     and_then (modify (\<lambda>s. s\<lparr>st_log := st_log s @ [Errored msg]\<rparr>)) (perform (onError options msg e))"

fun for_each :: "('a \<Rightarrow> 'w action) \<Rightarrow> 'a list \<Rightarrow> 'w action" where
  "for_each body [] s = (None, s)"
| "for_each body (x # xs) s =
     (case body x s of (Some e, s') \<Rightarrow> (Some e, s') | (None, s') \<Rightarrow> for_each body xs s')"

text \<open>
  The three loops.  For each one, the body of the \<open>try\<close> block comes first, then the
  iteration with its \<open>catch\<close> handler: the handler calls \<open>onError\<close> and then pushes the
  message, so an exception of \<open>onError\<close> leaves the loop.
\<close>

definition delete_try :: "'w node_fs \<Rightarrow> 'w apply_options \<Rightarrow> string \<Rightarrow> 'w action" where
  "delete_try fs options filePath s =
     (case safeJoin (cwd fs) (appPath options) filePath of
        Inl e \<Rightarrow> (Some e, s)
      | Inr fullFilePath \<Rightarrow>
          if existsSync fs fullFilePath (st_world s) then
            (case lstatIsDirectory fs fullFilePath (st_world s) of
               Inl e \<Rightarrow> (Some e, s)
             | Inr isDirectory \<Rightarrow>
                 and_then (perform (if isDirectory then rmdirSync fs fullFilePath
                              else unlinkSync fs fullFilePath))
                   (and_then (call_onLog options (''Successfully deleted: '' @ filePath))
                      (modify (\<lambda>s. s\<lparr>st_deleted := st_deleted s @ [filePath]\<rparr>))) s)
          else call_onWarn options (''File to delete does not exist: '' @ filePath) s)"

definition delete_step :: "'w node_fs \<Rightarrow> 'w apply_options \<Rightarrow> string \<Rightarrow> 'w action" where
  "delete_step fs options filePath =
     and_then (modify (\<lambda>s. s\<lparr>st_attempted := st_attempted s @ [DeleteOp filePath]\<rparr>))
       (try_catch (delete_try fs options filePath)
          (\<lambda>e. and_then (call_onError options (''Failed to delete: '' @ filePath) e)
                 (modify (\<lambda>s. s\<lparr>st_errors := st_errors s @ [''Failed to delete: '' @ filePath]\<rparr>))))"

definition rename_try :: "'w node_fs \<Rightarrow> 'w apply_options \<Rightarrow> rename_tag \<Rightarrow> 'w action" where
  "rename_try fs options tag s =
     (case safeJoin (cwd fs) (appPath options) (rt_from tag) of
        Inl e \<Rightarrow> (Some e, s)
      | Inr fromPath \<Rightarrow>
          (case safeJoin (cwd fs) (appPath options) (rt_to tag) of
             Inl e \<Rightarrow> (Some e, s)
           | Inr toPath \<Rightarrow>
               and_then (perform (mkdirSync fs (dirname toPath)))
                 (\<lambda>s. if existsSync fs fromPath (st_world s) then
                        and_then (perform (renameSync fs fromPath toPath))
                          (and_then (call_onLog options
                                  (''Successfully renamed: '' @ rt_from tag @ '' -> '' @ rt_to tag))
                             (modify (\<lambda>s. s\<lparr>st_renamed := st_renamed s @ [rt_to tag]\<rparr>))) s
                      else call_onWarn options
                             (''Source file for rename does not exist: '' @ rt_from tag) s) s))"

definition rename_step :: "'w node_fs \<Rightarrow> 'w apply_options \<Rightarrow> rename_tag \<Rightarrow> 'w action" where
  "rename_step fs options tag =
     and_then (modify (\<lambda>s. s\<lparr>st_attempted := st_attempted s @ [RenameOp tag]\<rparr>))
       (try_catch (rename_try fs options tag)
          (\<lambda>e. and_then (call_onError options
                      (''Failed to rename: '' @ rt_from tag @ '' -> '' @ rt_to tag) e)
                 (modify (\<lambda>s. s\<lparr>st_errors := st_errors s @
                          [''Failed to rename: '' @ rt_from tag @ '' -> '' @ rt_to tag]\<rparr>))))"

definition upload_content ::
  "'w node_fs \<Rightarrow> 'w apply_options \<Rightarrow> write_tag \<Rightarrow> 'w apply_state
     \<Rightarrow> (exn + file_data) \<times> 'w apply_state" where
  "upload_content fs options tag s =
     (case fileUploadsMap options of
        None \<Rightarrow> (Inr (TextData (wt_content tag)), s)
      | Some uploads \<Rightarrow>
          (let trimmedContent = trim (wt_content tag) in
           case uploads trimmedContent of
             None \<Rightarrow> (Inr (TextData (wt_content tag)), s)
           | Some fileInfo \<Rightarrow>
               (case readFile fs (ui_filePath fileInfo) (st_world s) of
                  Inl e \<Rightarrow> (Inl e, s)
                | Inr buffer \<Rightarrow>
                    (case call_onLog options
                            (''Replaced file ID '' @ trimmedContent @ '' with content from ''
                               @ ui_originalName fileInfo) s of
                       (Some e, s') \<Rightarrow> (Inl e, s')
                     | (None, s') \<Rightarrow> (Inr (BufferData buffer), s')))))"

definition write_try :: "'w node_fs \<Rightarrow> 'w apply_options \<Rightarrow> write_tag \<Rightarrow> 'w action" where
  "write_try fs options tag s =
     (case safeJoin (cwd fs) (appPath options) (wt_path tag) of
        Inl e \<Rightarrow> (Some e, s)
      | Inr fullFilePath \<Rightarrow>
          (case upload_content fs options tag s of
             (Inl e, s') \<Rightarrow> (Some e, s')
           | (Inr fileData, s') \<Rightarrow>
               and_then (perform (mkdirSync fs (dirname fullFilePath)))
                 (and_then (perform (writeFileSync fs fullFilePath fileData))
                    (and_then (call_onLog options (''Successfully wrote: '' @ wt_path tag))
                       (modify (\<lambda>s. s\<lparr>st_written := st_written s @ [wt_path tag]\<rparr>)))) s'))"

definition write_step :: "'w node_fs \<Rightarrow> 'w apply_options \<Rightarrow> write_tag \<Rightarrow> 'w action" where
  "write_step fs options tag =
     and_then (modify (\<lambda>s. s\<lparr>st_attempted := st_attempted s @ [WriteOp tag]\<rparr>))
       (try_catch (write_try fs options tag)
          (\<lambda>e. and_then (call_onError options (''Failed to write: '' @ wt_path tag) e)
                 (modify (\<lambda>s. s\<lparr>st_errors := st_errors s @ [''Failed to write: '' @ wt_path tag]\<rparr>))))"

text \<open>
  The body of the outer \<open>try\<close> block up to the \<open>return\<close>, and the function with both of
  its \<open>return\<close> statements.  The result is the manifest together with the final state.
\<close>

definition apply_all :: "'w node_fs \<Rightarrow> 'w apply_options \<Rightarrow> 'w action" where
  "apply_all fs options =
     and_then (for_each (delete_step fs options) (deletePaths (parsedResponse options)))
       (and_then (for_each (rename_step fs options) (renameTags (parsedResponse options)))
          (for_each (write_step fs options) (writeTags (parsedResponse options))))"

definition initial_state :: "'w \<Rightarrow> 'w apply_state" where
  "initial_state w =
     \<lparr>st_written = [], st_renamed = [], st_deleted = [], st_errors = [],
      st_log = [], st_attempted = [], st_world = w\<rparr>"

definition applyFileChanges ::
  "'w node_fs \<Rightarrow> 'w apply_options \<Rightarrow> 'w \<Rightarrow> file_operation_result \<times> 'w apply_state" where
  "applyFileChanges fs options w =
     (case apply_all fs options (initial_state w) of
        (None, s) \<Rightarrow>
          (\<lparr>writtenFiles = st_written s, renamedFiles = st_renamed s,
            deletedFiles = st_deleted s,
            addedPackages = addDependencies (parsedResponse options),
            hasChanges = (length (st_written s) > 0 \<or> length (st_renamed s) > 0
                          \<or> length (st_deleted s) > 0),
            error = (if length (st_errors s) > 0 then Some (join ''; '' (st_errors s))
                     else None)\<rparr>, s)
      | (Some e, s) \<Rightarrow>
          (\<lparr>writtenFiles = st_written s, renamedFiles = st_renamed s,
            deletedFiles = st_deleted s,
            addedPackages = addDependencies (parsedResponse options),
            hasChanges = False,
            error = Some (message e)\<rparr>, s))"

subsection \<open>What an iteration and a loop leave behind\<close>

text \<open>
  The messages given to \<open>onError\<close>, in the order of the calls; the callbacks for which
  \<open>onError\<close> always returns; the operations of a response in the order of the three
  loops; and the message of the \<open>catch\<close> handler of an operation.
\<close>

definition err_messages :: "log_entry list \<Rightarrow> string list" where
  "err_messages entries = concat (map (\<lambda>e. case e of Errored m \<Rightarrow> [m] | _ \<Rightarrow> []) entries)"

definition onError_returns :: "'w apply_options \<Rightarrow> bool" where
  "onError_returns options = (\<forall>msg e w. fst (onError options msg e w) = None)"

definition all_ops :: "parsed_response \<Rightarrow> file_op list" where
  "all_ops pr = map DeleteOp (deletePaths pr) @ map RenameOp (renameTags pr)
                 @ map WriteOp (writeTags pr)"

fun failure_message :: "file_op \<Rightarrow> string" where
  "failure_message (DeleteOp filePath) = ''Failed to delete: '' @ filePath"
| "failure_message (RenameOp tag) = ''Failed to rename: '' @ rt_from tag @ '' -> '' @ rt_to tag"
| "failure_message (WriteOp tag) = ''Failed to write: '' @ wt_path tag"

text \<open>What a try block leaves unchanged.\<close>

definition quiet_step :: "'w apply_state \<Rightarrow> 'w apply_state \<Rightarrow> bool" where
  "quiet_step s s' \<longleftrightarrow>
     st_errors s' = st_errors s \<and> st_attempted s' = st_attempted s \<and>
     err_messages (st_log s') = err_messages (st_log s)"

lemma err_messages_append [simp]:
  "err_messages (xs @ ys) = err_messages xs @ err_messages ys"
  by (simp add: err_messages_def)

lemma err_messages_simps [simp]:
  "err_messages [] = []" "err_messages [Logged m] = []" "err_messages [Warned m] = []"
  "err_messages [Errored m] = [m]"
  by (simp_all add: err_messages_def)

lemma perform_quiet: "perform f s = (r, s') \<Longrightarrow> quiet_step s s'"
  by (auto simp: perform_def quiet_step_def split: prod.splits)

lemma call_onLog_quiet: "call_onLog options m s = (r, s') \<Longrightarrow> quiet_step s s'"
  by (auto simp: call_onLog_def and_then_def modify_def perform_def quiet_step_def split: prod.splits)

lemma call_onWarn_quiet: "call_onWarn options m s = (r, s') \<Longrightarrow> quiet_step s s'"
  by (auto simp: call_onWarn_def and_then_def modify_def perform_def quiet_step_def split: prod.splits)

lemma quiet_step_trans: "quiet_step s s' \<Longrightarrow> quiet_step s' s'' \<Longrightarrow> quiet_step s s''"
  by (simp add: quiet_step_def)

lemma quiet_step_refl: "quiet_step s s"
  by (simp add: quiet_step_def)

lemma and_then_quiet:
  assumes "\<And>r s s'. a s = (r, s') \<Longrightarrow> quiet_step s s'"
    and "\<And>r s s'. b s = (r, s') \<Longrightarrow> quiet_step s s'"
    and "and_then a b s = (r, s')"
  shows "quiet_step s s'"
proof (cases "a s")
  case (Pair ra sa)
  show ?thesis
  proof (cases ra)
    case None
    with Pair assms(3) have "b sa = (r, s')" by (simp add: and_then_def)
    from assms(1)[OF Pair] assms(2)[OF this] show ?thesis by (rule quiet_step_trans)
  next
    case (Some e)
    with Pair assms(3) have "s' = sa" by (simp add: and_then_def)
    with assms(1)[OF Pair] show ?thesis by simp
  qed
qed

lemma modify_deleted_quiet:
  "modify (\<lambda>s. s\<lparr>st_deleted := f s\<rparr>) s = (r, s') \<Longrightarrow> quiet_step s s'"
  by (auto simp: modify_def quiet_step_def)

lemma modify_renamed_quiet:
  "modify (\<lambda>s. s\<lparr>st_renamed := f s\<rparr>) s = (r, s') \<Longrightarrow> quiet_step s s'"
  by (auto simp: modify_def quiet_step_def)

lemma modify_written_quiet:
  "modify (\<lambda>s. s\<lparr>st_written := f s\<rparr>) s = (r, s') \<Longrightarrow> quiet_step s s'"
  by (auto simp: modify_def quiet_step_def)

lemma delete_try_quiet: "delete_try fs options p s = (r, s') \<Longrightarrow> quiet_step s s'"
  unfolding delete_try_def
  by (auto split: sum.splits if_splits
      intro: quiet_step_refl call_onWarn_quiet
      elim!: and_then_quiet[rotated 2] perform_quiet call_onLog_quiet modify_deleted_quiet)

lemma rename_try_quiet: "rename_try fs options tag s = (r, s') \<Longrightarrow> quiet_step s s'"
  unfolding rename_try_def
  by (auto split: sum.splits if_splits
      intro: quiet_step_refl call_onWarn_quiet
      elim!: and_then_quiet[rotated 2] perform_quiet call_onLog_quiet modify_renamed_quiet)

lemma upload_content_quiet: "upload_content fs options tag s = (r, s') \<Longrightarrow> quiet_step s s'"
  unfolding upload_content_def Let_def
  by (auto split: option.splits sum.splits prod.splits
      intro: quiet_step_refl call_onLog_quiet)

lemma write_try_quiet: "write_try fs options tag s = (r, s') \<Longrightarrow> quiet_step s s'"
  unfolding write_try_def
  by (auto split: sum.splits prod.splits
      intro: quiet_step_refl
      dest!: upload_content_quiet
      elim!: quiet_step_trans and_then_quiet[rotated 2] perform_quiet call_onLog_quiet
             modify_written_quiet)

text \<open>One iteration: the operation is noted, the try block runs, a failure is reported.\<close>

definition step_result ::
  "file_op \<Rightarrow> 'w apply_state \<Rightarrow> exn option \<Rightarrow> 'w apply_state \<Rightarrow> bool" where
  "step_result op s r s' \<longleftrightarrow>
     r = None \<and> st_attempted s' = st_attempted s @ [op] \<and>
     (\<exists>reported. st_errors s' = st_errors s @ reported \<and>
        err_messages (st_log s') = err_messages (st_log s) @ reported \<and>
        (reported = [] \<or> reported = [failure_message op]))"

lemma guarded_step:
  assumes "onError_returns options"
    and failure: "failure = failure_message op"
    and quiet: "\<And>r s s'. body s = (r, s') \<Longrightarrow> quiet_step s s'"
    and run: "and_then (modify (\<lambda>s. s\<lparr>st_attempted := st_attempted s @ [op]\<rparr>))
        (try_catch body
           (\<lambda>e. and_then (call_onError options failure e)
                  (modify (\<lambda>s. s\<lparr>st_errors := st_errors s @ [failure]\<rparr>)))) s = (r, s')"
  shows "step_result op s r s'"
proof -
  let ?s0 = "s\<lparr>st_attempted := st_attempted s @ [op]\<rparr>"
  obtain rb sb where b: "body ?s0 = (rb, sb)" by force
  from quiet[OF b] have q: "st_errors sb = st_errors s" "st_attempted sb = st_attempted s @ [op]"
    "err_messages (st_log sb) = err_messages (st_log s)"
    by (simp_all add: quiet_step_def)
  show ?thesis
  proof (cases rb)
    case None
    with run b have "r = None" "s' = sb"
      by (simp_all add: and_then_def modify_def try_catch_def)
    with q show ?thesis by (simp add: step_result_def)
  next
    case (Some e)
    let ?s1 = "sb\<lparr>st_log := st_log sb @ [Errored failure]\<rparr>"
    obtain w where w: "onError options failure e (st_world ?s1) = (None, w)"
      using assms(1) by (metis onError_returns_def prod.collapse)
    with run b Some have "r = None"
      "s' = ?s1\<lparr>st_world := w, st_errors := st_errors sb @ [failure]\<rparr>"
      by (simp_all add: and_then_def modify_def try_catch_def call_onError_def perform_def)
    with q failure show ?thesis by (simp add: step_result_def)
  qed
qed

lemma delete_step_result:
  assumes "onError_returns options" "delete_step fs options p s = (r, s')"
  shows "step_result (DeleteOp p) s r s'"
  by (rule guarded_step[where body = "delete_try fs options p"
         and failure = "''Failed to delete: '' @ p", OF assms(1)])
     (simp, erule delete_try_quiet, rule assms(2)[unfolded delete_step_def])

lemma rename_step_result:
  assumes "onError_returns options" "rename_step fs options tag s = (r, s')"
  shows "step_result (RenameOp tag) s r s'"
  by (rule guarded_step[where body = "rename_try fs options tag"
         and failure = "''Failed to rename: '' @ rt_from tag @ '' -> '' @ rt_to tag", OF assms(1)])
     (simp, erule rename_try_quiet, rule assms(2)[unfolded rename_step_def])

lemma write_step_result:
  assumes "onError_returns options" "write_step fs options tag s = (r, s')"
  shows "step_result (WriteOp tag) s r s'"
  by (rule guarded_step[where body = "write_try fs options tag"
         and failure = "''Failed to write: '' @ wt_path tag", OF assms(1)])
     (simp, erule write_try_quiet, rule assms(2)[unfolded write_step_def])

text \<open>A loop of such iterations.\<close>

definition loop_result ::
  "file_op list \<Rightarrow> 'w apply_state \<Rightarrow> exn option \<Rightarrow> 'w apply_state \<Rightarrow> bool" where
  "loop_result ops s r s' \<longleftrightarrow>
     r = None \<and> st_attempted s' = st_attempted s @ ops \<and>
     (\<exists>reported. st_errors s' = st_errors s @ reported \<and>
        err_messages (st_log s') = err_messages (st_log s) @ reported \<and>
        subseq reported (map failure_message ops))"

lemma for_each_result:
  assumes "\<And>x s r s'. body x s = (r, s') \<Longrightarrow> step_result (mk x) s r s'"
  shows "for_each body xs s = (r, s') \<Longrightarrow> loop_result (map mk xs) s r s'"
proof (induction xs arbitrary: s)
  case Nil
  then show ?case by (auto simp: loop_result_def)
next
  case (Cons x xs)
  obtain r1 s1 where b: "body x s = (r1, s1)" by force
  from assms[OF b] have st: "step_result (mk x) s r1 s1" .
  then have "r1 = None" by (simp add: step_result_def)
  with Cons.prems b have "for_each body xs s1 = (r, s')" by simp
  from Cons.IH[OF this] st show ?case
    by (auto simp: loop_result_def step_result_def)
qed

lemma loop_result_trans:
  "loop_result xs s None s1 \<Longrightarrow> loop_result ys s1 r s2 \<Longrightarrow> loop_result (xs @ ys) s r s2"
  by (auto simp: loop_result_def intro: list_emb_append_mono)

lemma apply_all_result:
  assumes "onError_returns options" "apply_all fs options s = (r, s')"
  shows "loop_result (all_ops (parsedResponse options)) s r s'"
proof -
  let ?pr = "parsedResponse options"
  obtain r1 s1 where d: "for_each (delete_step fs options) (deletePaths ?pr) s = (r1, s1)" by force
  have l1: "loop_result (map DeleteOp (deletePaths ?pr)) s r1 s1"
    by (rule for_each_result[where body = "delete_step fs options", OF _ d])
       (rule delete_step_result[OF assms(1)])
  then have r1: "r1 = None" by (simp add: loop_result_def)
  obtain r2 s2 where n: "for_each (rename_step fs options) (renameTags ?pr) s1 = (r2, s2)" by force
  have l2: "loop_result (map RenameOp (renameTags ?pr)) s1 r2 s2"
    by (rule for_each_result[where body = "rename_step fs options", OF _ n])
       (rule rename_step_result[OF assms(1)])
  then have r2: "r2 = None" by (simp add: loop_result_def)
  from assms(2) d n r1 r2
  have w: "for_each (write_step fs options) (writeTags ?pr) s2 = (r, s')"
    by (simp add: apply_all_def and_then_def)
  have l3: "loop_result (map WriteOp (writeTags ?pr)) s2 r s'"
    by (rule for_each_result[where body = "write_step fs options", OF _ w])
       (rule write_step_result[OF assms(1)])
  from loop_result_trans[OF l1[unfolded r1] loop_result_trans[OF l2[unfolded r2] l3]]
  show ?thesis by (simp add: all_ops_def)
qed

text \<open>
  With an \<open>onError\<close> that may throw, every iteration still notes its operation first.
\<close>

lemma call_onError_attempted:
  "call_onError options m e s = (r, s') \<Longrightarrow> st_attempted s' = st_attempted s"
  by (auto simp: call_onError_def and_then_def modify_def perform_def split: prod.splits)

lemma guarded_attempted:
  assumes quiet: "\<And>r s s'. body s = (r, s') \<Longrightarrow> quiet_step s s'"
    and run: "and_then (modify (\<lambda>s. s\<lparr>st_attempted := st_attempted s @ [op]\<rparr>))
        (try_catch body
           (\<lambda>e. and_then (call_onError options failure e)
                  (modify (\<lambda>s. s\<lparr>st_errors := st_errors s @ [failure]\<rparr>)))) s = (r, s')"
  shows "st_attempted s' = st_attempted s @ [op]"
proof -
  let ?s0 = "s\<lparr>st_attempted := st_attempted s @ [op]\<rparr>"
  obtain rb sb where b: "body ?s0 = (rb, sb)" by force
  from quiet[OF b] have q: "st_attempted sb = st_attempted s @ [op]"
    by (simp add: quiet_step_def)
  show ?thesis
  proof (cases rb)
    case None
    with run b have "s' = sb" by (simp add: and_then_def modify_def try_catch_def)
    with q show ?thesis by simp
  next
    case (Some e)
    obtain rc sc where c: "call_onError options failure e sb = (rc, sc)" by force
    from call_onError_attempted[OF c] q have "st_attempted sc = st_attempted s @ [op]" by simp
    moreover from run b Some c have "st_attempted s' = st_attempted sc"
      by (cases rc) (auto simp: and_then_def modify_def try_catch_def)
    ultimately show ?thesis by simp
  qed
qed

lemma delete_step_attempted:
  "delete_step fs options p s = (r, s') \<Longrightarrow> st_attempted s' = st_attempted s @ [DeleteOp p]"
  unfolding delete_step_def
  by (rule guarded_attempted[where body = "delete_try fs options p"]) (erule delete_try_quiet)

lemma rename_step_attempted:
  "rename_step fs options tag s = (r, s') \<Longrightarrow> st_attempted s' = st_attempted s @ [RenameOp tag]"
  unfolding rename_step_def
  by (rule guarded_attempted[where body = "rename_try fs options tag"]) (erule rename_try_quiet)

lemma write_step_attempted:
  "write_step fs options tag s = (r, s') \<Longrightarrow> st_attempted s' = st_attempted s @ [WriteOp tag]"
  unfolding write_step_def
  by (rule guarded_attempted[where body = "write_try fs options tag"]) (erule write_try_quiet)

lemma for_each_attempted:
  assumes "\<And>x s r s'. body x s = (r, s') \<Longrightarrow> st_attempted s' = st_attempted s @ [mk x]"
  shows "for_each body xs s = (r, s') \<Longrightarrow>
           \<exists>att. prefix att (map mk xs) \<and> st_attempted s' = st_attempted s @ att \<and>
                  (r = None \<longrightarrow> att = map mk xs)"
proof (induction xs arbitrary: s)
  case Nil
  then show ?case by auto
next
  case (Cons x xs)
  obtain r1 s1 where b: "body x s = (r1, s1)" by force
  note a = assms[OF b]
  show ?case
  proof (cases r1)
    case None
    with Cons.prems b have "for_each body xs s1 = (r, s')" by simp
    from Cons.IH[OF this] obtain att where d: "prefix att (map mk xs)"
      "st_attempted s' = st_attempted s1 @ att" "r = None \<longrightarrow> att = map mk xs" by blast
    show ?thesis
      using d a by (intro exI[of _ "mk x # att"]) simp
  next
    case (Some e)
    with Cons.prems b have "r = Some e" "s' = s1" by simp_all
    then show ?thesis using a by (intro exI[of _ "[mk x]"]) simp
  qed
qed

lemma apply_all_attempted:
  assumes "apply_all fs options s = (r, s')"
  shows "\<exists>att. prefix att (all_ops (parsedResponse options)) \<and>
           st_attempted s' = st_attempted s @ att"
proof -
  let ?pr = "parsedResponse options"
  obtain r1 s1 where d: "for_each (delete_step fs options) (deletePaths ?pr) s = (r1, s1)" by force
  from for_each_attempted[where body = "delete_step fs options" and mk = DeleteOp, OF _ d]
  obtain d1 where d1: "prefix d1 (map DeleteOp (deletePaths ?pr))"
    "st_attempted s1 = st_attempted s @ d1" "r1 = None \<longrightarrow> d1 = map DeleteOp (deletePaths ?pr)"
    using delete_step_attempted by blast
  show ?thesis
  proof (cases r1)
    case (Some e)
    with assms d have "s' = s1" by (simp add: apply_all_def and_then_def)
    with d1 show ?thesis by (intro exI[of _ d1]) (simp add: all_ops_def prefix_prefix)
  next
    case None
    obtain r2 s2 where n: "for_each (rename_step fs options) (renameTags ?pr) s1 = (r2, s2)" by force
    from for_each_attempted[where body = "rename_step fs options" and mk = RenameOp, OF _ n]
    obtain d2 where d2: "prefix d2 (map RenameOp (renameTags ?pr))"
      "st_attempted s2 = st_attempted s1 @ d2" "r2 = None \<longrightarrow> d2 = map RenameOp (renameTags ?pr)"
      using rename_step_attempted by blast
    show ?thesis
    proof (cases r2)
      case (Some e)
      with assms d n None have "s' = s2" by (simp add: apply_all_def and_then_def)
      with d1 d2 None show ?thesis
        by (intro exI[of _ "d1 @ d2"]) (simp add: all_ops_def prefix_prefix)
    next
      case r2: None
      from assms d n None r2
      have w: "for_each (write_step fs options) (writeTags ?pr) s2 = (r, s')"
        by (simp add: apply_all_def and_then_def)
      from for_each_attempted[where body = "write_step fs options" and mk = WriteOp, OF _ w]
      obtain d3 where d3: "prefix d3 (map WriteOp (writeTags ?pr))"
        "st_attempted s' = st_attempted s2 @ d3"
        using write_step_attempted by blast
      with d1 d2 None r2 show ?thesis
        by (intro exI[of _ "d1 @ d2 @ d3"]) (simp add: all_ops_def)
    qed
  qed
qed

text \<open>
  Single iterations: an absent source or target, and a failing \<open>try\<close> block.
\<close>

lemma rename_step_missing_source:
  assumes "safeJoin (cwd fs) (appPath options) (rt_from tag) = Inr fromPath"
    and "safeJoin (cwd fs) (appPath options) (rt_to tag) = Inr toPath"
    and "mkdirSync fs (dirname toPath) (st_world s) = (None, w1)"
    and "\<not> existsSync fs fromPath w1"
    and "onWarn options (''Source file for rename does not exist: '' @ rt_from tag) w1 = (None, w2)"
  shows "rename_step fs options tag s =
           (None, s\<lparr>st_attempted := st_attempted s @ [RenameOp tag],
                    st_log := st_log s @ [Warned (''Source file for rename does not exist: ''
                                                    @ rt_from tag)],
                    st_world := w2\<rparr>)"
  using assms
  by (simp add: rename_step_def rename_try_def and_then_def try_catch_def modify_def
      perform_def call_onWarn_def)






text \<open>
  The three loops are one pass over the operations of the response.  \<open>try_of\<close> is the
  \<open>try\<close> block of an operation, \<open>step_of\<close> its loop iteration; \<open>failed_ops\<close> lists the
  operations whose \<open>try\<close> block throws, each run on the state that the iterations before
  it leave.
\<close>

fun try_of :: "'w node_fs \<Rightarrow> 'w apply_options \<Rightarrow> file_op \<Rightarrow> 'w action" where
  "try_of fs options (DeleteOp filePath) = delete_try fs options filePath"
| "try_of fs options (RenameOp tag) = rename_try fs options tag"
| "try_of fs options (WriteOp tag) = write_try fs options tag"

fun step_of :: "'w node_fs \<Rightarrow> 'w apply_options \<Rightarrow> file_op \<Rightarrow> 'w action" where
  "step_of fs options (DeleteOp filePath) = delete_step fs options filePath"
| "step_of fs options (RenameOp tag) = rename_step fs options tag"
| "step_of fs options (WriteOp tag) = write_step fs options tag"

fun failed_ops ::
  "'w node_fs \<Rightarrow> 'w apply_options \<Rightarrow> file_op list \<Rightarrow> 'w apply_state \<Rightarrow> file_op list" where
  "failed_ops fs options [] s = []"
| "failed_ops fs options (op # ops) s =
     (if fst (try_of fs options op (s\<lparr>st_attempted := st_attempted s @ [op]\<rparr>)) = None then []
      else [op])
     @ failed_ops fs options ops (snd (step_of fs options op s))"

lemma for_each_append:
  "for_each body (xs @ ys) s = and_then (for_each body xs) (for_each body ys) s"
  by (induction xs arbitrary: s) (auto simp: and_then_def split: prod.splits option.splits)

lemma for_each_map: "for_each body (map f xs) s = for_each (\<lambda>x. body (f x)) xs s"
  by (induction xs arbitrary: s) (auto split: prod.splits option.splits)

lemma apply_all_for_each:
  "apply_all fs options s = for_each (step_of fs options) (all_ops (parsedResponse options)) s"
  by (simp add: apply_all_def all_ops_def for_each_append for_each_map and_then_def
      split: prod.splits option.splits)

lemma guarded_errors:
  assumes "onError_returns options"
    and quiet: "\<And>r s s'. body s = (r, s') \<Longrightarrow> quiet_step s s'"
    and run: "and_then (modify (\<lambda>s. s\<lparr>st_attempted := st_attempted s @ [op]\<rparr>))
        (try_catch body
           (\<lambda>e. and_then (call_onError options failure e)
                  (modify (\<lambda>s. s\<lparr>st_errors := st_errors s @ [failure]\<rparr>)))) s = (r, s')"
  shows "r = None \<and>
         st_errors s' = st_errors s @
           (if fst (body (s\<lparr>st_attempted := st_attempted s @ [op]\<rparr>)) = None then [] else [failure])"
proof -
  let ?s0 = "s\<lparr>st_attempted := st_attempted s @ [op]\<rparr>"
  obtain rb sb where b: "body ?s0 = (rb, sb)" by force
  from quiet[OF b] have q: "st_errors sb = st_errors s" by (simp add: quiet_step_def)
  show ?thesis
  proof (cases rb)
    case None
    with run b have "r = None" "s' = sb"
      by (simp_all add: and_then_def modify_def try_catch_def)
    with q b None show ?thesis by simp
  next
    case (Some e)
    let ?s1 = "sb\<lparr>st_log := st_log sb @ [Errored failure]\<rparr>"
    obtain w where w: "onError options failure e (st_world ?s1) = (None, w)"
      using assms(1) by (metis onError_returns_def prod.collapse)
    with run b Some have "r = None"
      "s' = ?s1\<lparr>st_world := w, st_errors := st_errors sb @ [failure]\<rparr>"
      by (simp_all add: and_then_def modify_def try_catch_def call_onError_def perform_def)
    with q b Some show ?thesis by simp
  qed
qed

lemma step_of_errors:
  assumes "onError_returns options" "step_of fs options op s = (r, s')"
  shows "r = None \<and>
         st_errors s' = st_errors s @
           (if fst (try_of fs options op (s\<lparr>st_attempted := st_attempted s @ [op]\<rparr>)) = None
            then [] else [failure_message op])"
proof (cases op)
  case (DeleteOp p)
  show ?thesis unfolding DeleteOp try_of.simps failure_message.simps
    by (rule guarded_errors[where body = "delete_try fs options p", OF assms(1)])
       (erule delete_try_quiet, rule assms(2)[unfolded DeleteOp step_of.simps delete_step_def])
next
  case (RenameOp tag)
  show ?thesis unfolding RenameOp try_of.simps failure_message.simps
    by (rule guarded_errors[where body = "rename_try fs options tag", OF assms(1)])
       (erule rename_try_quiet, rule assms(2)[unfolded RenameOp step_of.simps rename_step_def])
next
  case (WriteOp tag)
  show ?thesis unfolding WriteOp try_of.simps failure_message.simps
    by (rule guarded_errors[where body = "write_try fs options tag", OF assms(1)])
       (erule write_try_quiet, rule assms(2)[unfolded WriteOp step_of.simps write_step_def])
qed

lemma for_each_failed:
  assumes "onError_returns options"
  shows "for_each (step_of fs options) ops s = (r, s') \<Longrightarrow>
           r = None \<and> st_errors s' = st_errors s @ map failure_message (failed_ops fs options ops s)"
proof (induction ops arbitrary: s)
  case Nil
  then show ?case by simp
next
  case (Cons op ops)
  obtain r1 s1 where b: "step_of fs options op s = (r1, s1)" by force
  from step_of_errors[OF assms b] have r1: "r1 = None"
    and e1: "st_errors s1 = st_errors s @
           (if fst (try_of fs options op (s\<lparr>st_attempted := st_attempted s @ [op]\<rparr>)) = None
            then [] else [failure_message op])" by simp_all
  from Cons.prems b r1 have "for_each (step_of fs options) ops s1 = (r, s')" by simp
  from Cons.IH[OF this] e1 b show ?case by simp
qed

subsection \<open>A disk for the examples\<close>

text \<open>
  A disk is a list of absolute, normalised paths, each a file with its content or a
  directory; the root \<open>/\<close> is a directory that is always there.  The functions follow
  \<open>node:fs\<close> on a POSIX system, for the paths \<open>safeJoin\<close> returns: \<open>mkdirSync\<close> with
  \<open>recursive\<close> creates the directory and its missing ancestors and fails on a file in
  the way; \<open>rmdirSync\<close> with \<open>recursive\<close> removes a directory with all it holds;
  \<open>unlinkSync\<close> removes a file; \<open>renameSync\<close> moves a file or a directory with all it
  holds, and fails when the target lies inside the source; \<open>writeFileSync\<close> needs the
  parent directory.  An error carries the message Node gives it.
\<close>

datatype node = File file_data | Directory

type_synonym disk = "(string \<times> node) list"

definition node_at :: "disk \<Rightarrow> string \<Rightarrow> node option" where
  "node_at d p = (if p = ''/'' then Some Directory else map_of d p)"

definition below :: "string \<Rightarrow> string \<Rightarrow> bool" where
  "below dir p = (if dir = ''/'' then p \<noteq> ''/'' else prefix (dir @ ''/'') p)"

definition quoted :: "string \<Rightarrow> string" where
  "quoted p = [CHR 0x27] @ p @ [CHR 0x27]"

definition enoent :: "string \<Rightarrow> exn" where
  "enoent what = Error (''ENOENT: no such file or directory, '' @ what)"

definition enotdir :: "string \<Rightarrow> exn" where
  "enotdir what = Error (''ENOTDIR: not a directory, '' @ what)"

definition eisdir :: "string \<Rightarrow> exn" where
  "eisdir what = Error (''EISDIR: illegal operation on a directory, '' @ what)"

definition dir_chain :: "string \<Rightarrow> string list" where
  "dir_chain p = map (\<lambda>segs. ''/'' @ join ''/'' segs) (tl (prefixes (path_segments p)))"

fun mkdir_chain :: "string list \<Rightarrow> string \<Rightarrow> disk \<Rightarrow> exn option \<times> disk" where
  "mkdir_chain [] target d = (None, d)"
| "mkdir_chain (q # qs) target d =
     (case node_at d q of
        None \<Rightarrow> mkdir_chain qs target (d @ [(q, Directory)])
      | Some Directory \<Rightarrow> mkdir_chain qs target d
      | Some (File content) \<Rightarrow>
          (Some (if q = target
                 then Error (''EEXIST: file already exists, mkdir '' @ quoted target)
                 else enotdir (''mkdir '' @ quoted target)), d))"

definition disk_mkdir :: "string \<Rightarrow> disk effect" where
  "disk_mkdir p d = mkdir_chain (dir_chain p) p d"

definition disk_lstat :: "string \<Rightarrow> disk \<Rightarrow> exn + bool" where
  "disk_lstat p d =
     (case node_at d p of
        None \<Rightarrow> Inl (enoent (''lstat '' @ quoted p))
      | Some Directory \<Rightarrow> Inr True
      | Some (File content) \<Rightarrow> Inr False)"

definition disk_rmdir :: "string \<Rightarrow> disk effect" where
  "disk_rmdir p d =
     (case node_at d p of
        None \<Rightarrow> (Some (enoent (''rmdir '' @ quoted p)), d)
      | Some (File content) \<Rightarrow> (Some (enotdir (''rmdir '' @ quoted p)), d)
      | Some Directory \<Rightarrow> (None, filter (\<lambda>entry. fst entry \<noteq> p \<and> \<not> below p (fst entry)) d))"

definition disk_unlink :: "string \<Rightarrow> disk effect" where
  "disk_unlink p d =
     (case node_at d p of
        None \<Rightarrow> (Some (enoent (''unlink '' @ quoted p)), d)
      | Some Directory \<Rightarrow> (Some (eisdir (''unlink '' @ quoted p)), d)
      | Some (File content) \<Rightarrow> (None, filter (\<lambda>entry. fst entry \<noteq> p) d))"

definition moved :: "string \<Rightarrow> string \<Rightarrow> disk \<Rightarrow> disk" where
  "moved p q d =
     map (\<lambda>entry. (if fst entry = p then q
                     else if below p (fst entry) then q @ drop (length p) (fst entry)
                     else fst entry, snd entry))
       (filter (\<lambda>entry. fst entry \<noteq> q) d)"

definition disk_rename :: "string \<Rightarrow> string \<Rightarrow> disk effect" where
  "disk_rename p q d =
     (let what = ''rename '' @ quoted p @ '' -> '' @ quoted q in
      case node_at d p of
        None \<Rightarrow> (Some (enoent what), d)
      | Some source \<Rightarrow>
          (case node_at d (dirname q) of
             None \<Rightarrow> (Some (enoent what), d)
           | Some (File content) \<Rightarrow> (Some (enotdir what), d)
           | Some Directory \<Rightarrow>
               if p = q then (None, d)
               else if below p q then (Some (Error (''EINVAL: invalid argument, '' @ what)), d)
               else
                 (case (source, node_at d q) of
                    (Directory, Some (File content)) \<Rightarrow> (Some (enotdir what), d)
                  | (Directory, Some Directory) \<Rightarrow>
                      if list_ex (\<lambda>entry. below q (fst entry)) d
                      then (Some (Error (''ENOTEMPTY: directory not empty, '' @ what)), d)
                      else (None, moved p q d)
                  | (File content, Some Directory) \<Rightarrow> (Some (eisdir what), d)
                  | other \<Rightarrow> (None, moved p q d))))"

definition disk_write :: "string \<Rightarrow> file_data \<Rightarrow> disk effect" where
  "disk_write p content d =
     (case node_at d p of
        Some Directory \<Rightarrow> (Some (eisdir (''open '' @ quoted p)), d)
      | Some (File old) \<Rightarrow>
          (None, map (\<lambda>entry. if fst entry = p then (p, File content) else entry) d)
      | None \<Rightarrow>
          (case node_at d (dirname p) of
             None \<Rightarrow> (Some (enoent (''open '' @ quoted p)), d)
           | Some (File other) \<Rightarrow> (Some (enotdir (''open '' @ quoted p)), d)
           | Some Directory \<Rightarrow> (None, d @ [(p, File content)])))"

definition disk_read :: "string \<Rightarrow> disk \<Rightarrow> exn + string" where
  "disk_read p d =
     (case node_at d p of
        None \<Rightarrow> Inl (enoent (''open '' @ quoted p))
      | Some Directory \<Rightarrow> Inl (eisdir (''read''))
      | Some (File (TextData t)) \<Rightarrow> Inr t
      | Some (File (BufferData b)) \<Rightarrow> Inr b)"

definition disk_fs :: "string \<Rightarrow> disk node_fs" where
  "disk_fs dir =
     \<lparr>cwd = dir,
      existsSync = (\<lambda>p d. node_at d p \<noteq> None),
      lstatIsDirectory = disk_lstat,
      rmdirSync = disk_rmdir,
      unlinkSync = disk_unlink,
      mkdirSync = disk_mkdir,
      renameSync = disk_rename,
      writeFileSync = disk_write,
      readFile = disk_read\<rparr>"

text \<open>
  Callbacks that return, and an \<open>onError\<close> that throws the error it is given; a response
  with deletes, renames and writes only; options for the project root \<open>/app\<close>.
\<close>

definition silent :: "string \<Rightarrow> 'w effect" where
  "silent msg w = (None, w)"

definition silent_onError :: "string \<Rightarrow> exn \<Rightarrow> 'w effect" where
  "silent_onError msg e w = (None, w)"

definition rethrow :: "string \<Rightarrow> exn \<Rightarrow> 'w effect" where
  "rethrow msg e w = (Some e, w)"

definition operations :: "string list \<Rightarrow> rename_tag list \<Rightarrow> write_tag list \<Rightarrow> parsed_response" where
  "operations ds rs ws =
     \<lparr>writeTags = ws, renameTags = rs, deletePaths = ds, addDependencies = [],
      searchReplaceTags = [], sqlQueries = [], commands = [], chatSummary = None\<rparr>"

definition quiet_options :: "parsed_response \<Rightarrow> disk apply_options" where
  "quiet_options pr =
     \<lparr>appPath = ''/app'', parsedResponse = pr, onLog = silent, onWarn = silent,
      onError = silent_onError, fileUploadsMap = None\<rparr>"

definition rethrow_options :: "parsed_response \<Rightarrow> disk apply_options" where
  "rethrow_options pr = (quiet_options pr)\<lparr>onError := rethrow\<rparr>"

text \<open>
  The disk on the cases that a list of files alone cannot show: a directory is created
  with its ancestors, a file in the way stops it, and a directory cannot be moved into
  itself.
\<close>

lemma disk_examples:
  "disk_mkdir ''/app/src/lib'' [(''/app'', Directory)]
     = (None, [(''/app'', Directory), (''/app/src'', Directory), (''/app/src/lib'', Directory)])"
  "fst (disk_mkdir ''/app/a.txt/lib'' [(''/app'', Directory), (''/app/a.txt'', File (TextData ''x''))])
     = Some (Error (''ENOTDIR: not a directory, mkdir '' @ quoted ''/app/a.txt/lib''))"
  "fst (disk_rename ''/app/old'' ''/app/old/index.ts'' [(''/app'', Directory), (''/app/old'', Directory)])
     = Some (Error (''EINVAL: invalid argument, rename '' @ quoted ''/app/old'' @ '' -> ''
                      @ quoted ''/app/old/index.ts''))"
  "disk_rename ''/app/src'' ''/app/lib''
       [(''/app'', Directory), (''/app/src'', Directory), (''/app/src/a.ts'', File (TextData ''x''))]
     = (None, [(''/app'', Directory), (''/app/lib'', Directory),
               (''/app/lib/a.ts'', File (TextData ''x''))])"
  "disk_rmdir ''/app/src''
       [(''/app'', Directory), (''/app/src'', Directory), (''/app/src/a.ts'', File (TextData ''x'')),
        (''/app/srcs'', Directory)]
     = (None, [(''/app'', Directory), (''/app/srcs'', Directory)])"
  by code_simp+

subsection \<open>A run whose error callback returns\<close>

lemma applyFileChanges_normal:
  assumes "onError_returns options"
  shows "\<exists>s. apply_all fs options (initial_state w) = (None, s) \<and>
           st_attempted s = all_ops (parsedResponse options) \<and>
           st_errors s = err_messages (st_log s) \<and>
           st_errors s = map failure_message
             (failed_ops fs options (all_ops (parsedResponse options)) (initial_state w)) \<and>
           applyFileChanges fs options w =
             (\<lparr>writtenFiles = st_written s, renamedFiles = st_renamed s,
               deletedFiles = st_deleted s,
               addedPackages = addDependencies (parsedResponse options),
               hasChanges = (st_written s \<noteq> [] \<or> st_renamed s \<noteq> [] \<or> st_deleted s \<noteq> []),
               error = (if st_errors s = [] then None else Some (join ''; '' (st_errors s)))\<rparr>, s)"
proof -
  obtain r s where a: "apply_all fs options (initial_state w) = (r, s)" by force
  from apply_all_result[OF assms a]
  have "r = None" "st_attempted s = all_ops (parsedResponse options)"
    "st_errors s = err_messages (st_log s)"
    by (auto simp: loop_result_def initial_state_def)
  moreover from for_each_failed[OF assms a[unfolded apply_all_for_each]]
  have "st_errors s = map failure_message
      (failed_ops fs options (all_ops (parsedResponse options)) (initial_state w))"
    by (simp add: initial_state_def)
  ultimately show ?thesis using a
    by (intro exI[of _ s]) (simp add: applyFileChanges_def)
qed

lemma quiet_options_onError_returns: "onError_returns (quiet_options pr)"
  by (simp add: onError_returns_def quiet_options_def silent_onError_def)

subsection \<open>Order of the operations\<close>

text \<open>
  Claim C5 as stated fails.  The file \<open>a.txt\<close> is deleted, then renamed to \<open>../b.txt\<close>:
  the target is outside the root, \<open>safeJoin\<close> throws before the source is looked at, and
  the rename is reported as an error; no warning is given.  The file \<open>old\<close> is deleted,
  then renamed to \<open>old/index.ts\<close>: both paths are inside the root, but \<open>mkdirSync\<close>
  creates the directory of the target, which is the path of the source, before the
  source is looked for; the source exists again, \<open>renameSync\<close> cannot move a directory
  into itself, and the rename is reported as an error; no warning is given.
\<close>

theorem applyFileChanges_order_counterexample:
  "fst (applyFileChanges (disk_fs ''/'')
     (quiet_options (operations [''a.txt''] [\<lparr>rt_from = ''a.txt'', rt_to = ''../b.txt''\<rparr>] []))
     [(''/app'', Directory), (''/app/a.txt'', File (TextData ''x''))])
   = \<lparr>writtenFiles = [], renamedFiles = [], deletedFiles = [''a.txt''], addedPackages = [],
      hasChanges = True, error = Some ''Failed to rename: a.txt -> ../b.txt''\<rparr> \<and>
   st_log (snd (applyFileChanges (disk_fs ''/'')
     (quiet_options (operations [''a.txt''] [\<lparr>rt_from = ''a.txt'', rt_to = ''../b.txt''\<rparr>] []))
     [(''/app'', Directory), (''/app/a.txt'', File (TextData ''x''))]))
   = [Logged ''Successfully deleted: a.txt'', Errored ''Failed to rename: a.txt -> ../b.txt''] \<and>
   fst (applyFileChanges (disk_fs ''/'')
     (quiet_options (operations [''old''] [\<lparr>rt_from = ''old'', rt_to = ''old/index.ts''\<rparr>] []))
     [(''/app'', Directory), (''/app/old'', File (TextData ''x''))])
   = \<lparr>writtenFiles = [], renamedFiles = [], deletedFiles = [''old''], addedPackages = [],
      hasChanges = True, error = Some ''Failed to rename: old -> old/index.ts''\<rparr> \<and>
   st_log (snd (applyFileChanges (disk_fs ''/'')
     (quiet_options (operations [''old''] [\<lparr>rt_from = ''old'', rt_to = ''old/index.ts''\<rparr>] []))
     [(''/app'', Directory), (''/app/old'', File (TextData ''x''))]))
   = [Logged ''Successfully deleted: old'', Errored ''Failed to rename: old -> old/index.ts'']"
  by code_simp

text \<open>
  Claim C5, amended.  The three loops are one pass over the operations of the response
  in the order all deletes, all renames, all writes, each operation run on the state
  and the file system that the operations before it leave.  The operations whose
  iteration starts are always an initial part of that list, and the whole list when
  \<open>onError\<close> returns for every call.  A rename gives the missing-source warning, records
  no error and lets no exception leave its iteration when: both of its paths resolve
  inside the root, \<open>mkdirSync\<close> creates the directory of the target without an error,
  the source does not exist after that (a delete may have removed it, but \<open>mkdirSync\<close>
  may create it again, as it does when the target lies below the source), and \<open>onWarn\<close>
  returns.
\<close>

theorem applyFileChanges_order:
  "apply_all fs options s = for_each (step_of fs options) (all_ops (parsedResponse options)) s \<and>
   prefix (st_attempted (snd (applyFileChanges fs options w))) (all_ops (parsedResponse options)) \<and>
   (onError_returns options \<longrightarrow>
      st_attempted (snd (applyFileChanges fs options w)) = all_ops (parsedResponse options)) \<and>
   (safeJoin (cwd fs) (appPath options) (rt_from tag) = Inr fromPath \<and>
    safeJoin (cwd fs) (appPath options) (rt_to tag) = Inr toPath \<and>
    mkdirSync fs (dirname toPath) (st_world s) = (None, afterMkdir) \<and>
    \<not> existsSync fs fromPath afterMkdir \<and>
    onWarn options (''Source file for rename does not exist: '' @ rt_from tag) afterMkdir = (None, afterWarn)
    \<longrightarrow> rename_step fs options tag s =
           (None, s\<lparr>st_attempted := st_attempted s @ [RenameOp tag],
                    st_log := st_log s @ [Warned (''Source file for rename does not exist: ''
                                                    @ rt_from tag)],
                    st_world := afterWarn\<rparr>))"
proof (intro conjI impI)
  show "apply_all fs options s = for_each (step_of fs options) (all_ops (parsedResponse options)) s"
    by (rule apply_all_for_each)
next
  obtain r s' where a: "apply_all fs options (initial_state w) = (r, s')" by force
  then have s: "snd (applyFileChanges fs options w) = s'"
    by (cases r) (simp_all add: applyFileChanges_def)
  from apply_all_attempted[OF a]
  show "prefix (st_attempted (snd (applyFileChanges fs options w))) (all_ops (parsedResponse options))"
    unfolding s by (auto simp: initial_state_def)
next
  assume "onError_returns options"
  from applyFileChanges_normal[OF this, of fs w]
  show "st_attempted (snd (applyFileChanges fs options w)) = all_ops (parsedResponse options)"
    by auto
next
  assume h: "safeJoin (cwd fs) (appPath options) (rt_from tag) = Inr fromPath \<and>
    safeJoin (cwd fs) (appPath options) (rt_to tag) = Inr toPath \<and>
    mkdirSync fs (dirname toPath) (st_world s) = (None, afterMkdir) \<and>
    \<not> existsSync fs fromPath afterMkdir \<and>
    onWarn options (''Source file for rename does not exist: '' @ rt_from tag) afterMkdir = (None, afterWarn)"
  show "rename_step fs options tag s =
           (None, s\<lparr>st_attempted := st_attempted s @ [RenameOp tag],
                    st_log := st_log s @ [Warned (''Source file for rename does not exist: ''
                                                    @ rt_from tag)],
                    st_world := afterWarn\<rparr>)"
    by (rule rename_step_missing_source
          [OF h[THEN conjunct1] h[THEN conjunct2, THEN conjunct1]
              h[THEN conjunct2, THEN conjunct2, THEN conjunct1]
              h[THEN conjunct2, THEN conjunct2, THEN conjunct2, THEN conjunct1]
              h[THEN conjunct2, THEN conjunct2, THEN conjunct2, THEN conjunct2]])
qed

theorem applyFileChanges_order_witness:
  "onError_returns (quiet_options (operations [''a.txt'']
      [\<lparr>rt_from = ''a.txt'', rt_to = ''b.txt''\<rparr>]
      [\<lparr>wt_path = ''a.txt'', wt_content = ''new'', wt_description = None\<rparr>])) \<and>
   st_attempted (snd (applyFileChanges (disk_fs ''/'')
     (quiet_options (operations [''a.txt'']
        [\<lparr>rt_from = ''a.txt'', rt_to = ''b.txt''\<rparr>]
        [\<lparr>wt_path = ''a.txt'', wt_content = ''new'', wt_description = None\<rparr>]))
     [(''/app'', Directory), (''/app/a.txt'', File (TextData ''x''))]))
   = [DeleteOp ''a.txt'', RenameOp \<lparr>rt_from = ''a.txt'', rt_to = ''b.txt''\<rparr>,
      WriteOp \<lparr>wt_path = ''a.txt'', wt_content = ''new'', wt_description = None\<rparr>] \<and>
   st_log (snd (applyFileChanges (disk_fs ''/'')
     (quiet_options (operations [''a.txt'']
        [\<lparr>rt_from = ''a.txt'', rt_to = ''b.txt''\<rparr>]
        [\<lparr>wt_path = ''a.txt'', wt_content = ''new'', wt_description = None\<rparr>]))
     [(''/app'', Directory), (''/app/a.txt'', File (TextData ''x''))]))
   = [Logged ''Successfully deleted: a.txt'',
      Warned ''Source file for rename does not exist: a.txt'',
      Logged ''Successfully wrote: a.txt''] \<and>
   st_world (snd (applyFileChanges (disk_fs ''/'')
     (quiet_options (operations [''a.txt'']
        [\<lparr>rt_from = ''a.txt'', rt_to = ''b.txt''\<rparr>]
        [\<lparr>wt_path = ''a.txt'', wt_content = ''new'', wt_description = None\<rparr>]))
     [(''/app'', Directory), (''/app/a.txt'', File (TextData ''x''))]))
   = [(''/app'', Directory), (''/app/a.txt'', File (TextData ''new''))] \<and>
   rename_step (disk_fs ''/'')
     (quiet_options (operations [] [\<lparr>rt_from = ''a.txt'', rt_to = ''b.txt''\<rparr>] []))
     \<lparr>rt_from = ''a.txt'', rt_to = ''b.txt''\<rparr> (initial_state [(''/app'', Directory)])
   = (None, (initial_state [(''/app'', Directory)])
        \<lparr>st_attempted := [RenameOp \<lparr>rt_from = ''a.txt'', rt_to = ''b.txt''\<rparr>],
         st_log := [Warned ''Source file for rename does not exist: a.txt'']\<rparr>)"
proof -
  let ?pr = "operations [''a.txt''] [\<lparr>rt_from = ''a.txt'', rt_to = ''b.txt''\<rparr>]
      [\<lparr>wt_path = ''a.txt'', wt_content = ''new'', wt_description = None\<rparr>]"
  let ?w = "[(''/app'', Directory), (''/app/a.txt'', File (TextData ''x''))]"
  let ?o = "quiet_options (operations [] [\<lparr>rt_from = ''a.txt'', rt_to = ''b.txt''\<rparr>] [])"
  let ?tag = "\<lparr>rt_from = ''a.txt'', rt_to = ''b.txt''\<rparr>"
  let ?d = "[(''/app'', Directory)]"
  have ops: "all_ops (parsedResponse (quiet_options ?pr)) =
      [DeleteOp ''a.txt'', RenameOp ?tag,
       WriteOp \<lparr>wt_path = ''a.txt'', wt_content = ''new'', wt_description = None\<rparr>]"
    by (simp add: all_ops_def quiet_options_def operations_def)
  have lg: "st_log (snd (applyFileChanges (disk_fs ''/'') (quiet_options ?pr) ?w))
     = [Logged ''Successfully deleted: a.txt'',
        Warned ''Source file for rename does not exist: a.txt'',
        Logged ''Successfully wrote: a.txt'']"
    by code_simp
  have wd: "st_world (snd (applyFileChanges (disk_fs ''/'') (quiet_options ?pr) ?w))
     = [(''/app'', Directory), (''/app/a.txt'', File (TextData ''new''))]"
    by code_simp
  have h1: "safeJoin (cwd (disk_fs ''/'')) (appPath ?o) (rt_from ?tag) = Inr ''/app/a.txt''"
    by code_simp
  have h2: "safeJoin (cwd (disk_fs ''/'')) (appPath ?o) (rt_to ?tag) = Inr ''/app/b.txt''"
    by code_simp
  have h3: "mkdirSync (disk_fs ''/'') (dirname ''/app/b.txt'') (st_world (initial_state ?d))
      = (None, ?d)"
    by code_simp
  have h4: "\<not> existsSync (disk_fs ''/'') ''/app/a.txt'' ?d"
    by code_simp
  have h5: "onWarn ?o (''Source file for rename does not exist: '' @ rt_from ?tag) ?d = (None, ?d)"
    by (simp add: quiet_options_def silent_def)
  note t = applyFileChanges_order[where fs = "disk_fs ''/''" and options = "quiet_options ?pr"
      and w = ?w]
  note u = applyFileChanges_order[where fs = "disk_fs ''/''" and options = ?o and tag = ?tag
      and fromPath = "''/app/a.txt''" and toPath = "''/app/b.txt''" and s = "initial_state ?d"
      and afterMkdir = ?d and afterWarn = ?d]
  have a: "st_attempted (snd (applyFileChanges (disk_fs ''/'') (quiet_options ?pr) ?w))
      = all_ops (parsedResponse (quiet_options ?pr))"
    by (rule mp[OF t[THEN conjunct2, THEN conjunct2, THEN conjunct1] quiet_options_onError_returns])
  note r = u[THEN conjunct2, THEN conjunct2, THEN conjunct2, THEN mp,
          OF conjI[OF h1 conjI[OF h2 conjI[OF h3 conjI[OF h4 h5]]]]]
  show ?thesis
    using quiet_options_onError_returns[of ?pr] a[unfolded ops] lg wd r
    by (simp add: initial_state_def)
qed

subsection \<open>Failures\<close>




subsection \<open>The flag hasChanges\<close>

text \<open>
  Claim C7 as stated fails.  With an \<open>onError\<close> that throws, \<open>a.txt\<close> is deleted and listed,
  then the second delete fails and the outer \<open>catch\<close> returns the manifest with
  \<open>hasChanges: false\<close>: the list of deleted files is not empty, the flag is false.
\<close>

theorem applyFileChanges_hasChanges_counterexample:
  "fst (applyFileChanges (disk_fs ''/'') (rethrow_options (operations [''a.txt'', ''../x''] [] []))
     [(''/app'', Directory), (''/app/a.txt'', File (TextData ''x''))])
   = \<lparr>writtenFiles = [], renamedFiles = [], deletedFiles = [''a.txt''], addedPackages = [],
      hasChanges = False,
      error = Some ''Path traversal attempt detected: ../x escapes /app''\<rparr>"
  by code_simp

text \<open>
  Claim C7, amended.  The flag is true exactly when no exception leaves the three loops
  and one of the three lists is not empty.  When \<open>onError\<close> returns for every call no
  exception leaves the loops, so the flag is true if and only if one of the three lists
  is not empty, whatever the error field is.
\<close>

theorem applyFileChanges_hasChanges:
  "(hasChanges (fst (applyFileChanges fs options w)) \<longleftrightarrow>
      fst (apply_all fs options (initial_state w)) = None \<and>
      (writtenFiles (fst (applyFileChanges fs options w)) \<noteq> [] \<or>
       renamedFiles (fst (applyFileChanges fs options w)) \<noteq> [] \<or>
       deletedFiles (fst (applyFileChanges fs options w)) \<noteq> [])) \<and>
   (onError_returns options \<longrightarrow>
      fst (apply_all fs options (initial_state w)) = None \<and>
      (hasChanges (fst (applyFileChanges fs options w)) \<longleftrightarrow>
         writtenFiles (fst (applyFileChanges fs options w)) \<noteq> [] \<or>
         renamedFiles (fst (applyFileChanges fs options w)) \<noteq> [] \<or>
         deletedFiles (fst (applyFileChanges fs options w)) \<noteq> []))"
proof -
  obtain r s where a: "apply_all fs options (initial_state w) = (r, s)" by force
  have exact: "hasChanges (fst (applyFileChanges fs options w)) \<longleftrightarrow>
      fst (apply_all fs options (initial_state w)) = None \<and>
      (writtenFiles (fst (applyFileChanges fs options w)) \<noteq> [] \<or>
       renamedFiles (fst (applyFileChanges fs options w)) \<noteq> [] \<or>
       deletedFiles (fst (applyFileChanges fs options w)) \<noteq> [])"
    using a by (cases r) (simp_all add: applyFileChanges_def)
  have completes: "fst (apply_all fs options (initial_state w)) = None" if "onError_returns options"
    using applyFileChanges_normal[OF that, of fs w] by auto
  from exact completes show ?thesis by blast
qed

theorem applyFileChanges_hasChanges_witness:
  "onError_returns (quiet_options (operations [''a.txt'', ''../x''] [] [])) \<and>
   deletedFiles (fst (applyFileChanges (disk_fs ''/'')
     (quiet_options (operations [''a.txt'', ''../x''] [] []))
     [(''/app'', Directory), (''/app/a.txt'', File (TextData ''x''))])) = [''a.txt''] \<and>
   error (fst (applyFileChanges (disk_fs ''/'')
     (quiet_options (operations [''a.txt'', ''../x''] [] []))
     [(''/app'', Directory), (''/app/a.txt'', File (TextData ''x''))])) = Some ''Failed to delete: ../x'' \<and>
   hasChanges (fst (applyFileChanges (disk_fs ''/'')
     (quiet_options (operations [''a.txt'', ''../x''] [] []))
     [(''/app'', Directory), (''/app/a.txt'', File (TextData ''x''))])) \<and>
   fst (apply_all (disk_fs ''/'') (rethrow_options (operations [''a.txt'', ''../x''] [] []))
     (initial_state [(''/app'', Directory), (''/app/a.txt'', File (TextData ''x''))]))
     = Some (Error ''Path traversal attempt detected: ../x escapes /app'') \<and>
   \<not> hasChanges (fst (applyFileChanges (disk_fs ''/'')
     (rethrow_options (operations [''a.txt'', ''../x''] [] []))
     [(''/app'', Directory), (''/app/a.txt'', File (TextData ''x''))]))"
proof -
  let ?pr = "operations [''a.txt'', ''../x''] [] []"
  let ?w = "[(''/app'', Directory), (''/app/a.txt'', File (TextData ''x''))]"
  have d: "deletedFiles (fst (applyFileChanges (disk_fs ''/'') (quiet_options ?pr) ?w)) = [''a.txt'']"
    by code_simp
  have e: "error (fst (applyFileChanges (disk_fs ''/'') (quiet_options ?pr) ?w))
      = Some ''Failed to delete: ../x''"
    by code_simp
  have a: "fst (apply_all (disk_fs ''/'') (rethrow_options ?pr) (initial_state ?w))
      = Some (Error ''Path traversal attempt detected: ../x escapes /app'')"
    by code_simp
  note quiet = applyFileChanges_hasChanges[where fs = "disk_fs ''/''"
      and options = "quiet_options ?pr" and w = ?w,
      THEN conjunct2, THEN mp, OF quiet_options_onError_returns, THEN conjunct2]
  note thrown = applyFileChanges_hasChanges[where fs = "disk_fs ''/''"
      and options = "rethrow_options ?pr" and w = ?w, THEN conjunct1]
  show ?thesis
    using quiet_options_onError_returns[of ?pr] d e a quiet thrown by simp
qed

section \<open>coding-loop: the stream multiplexer\<close>

text \<open>
  The producer's \<open>fullStream\<close> is an asynchronous sequence of parts.  What the loop of
  \<open>streamResponse\<close> observes is modelled as a list of events: a part delivered, the
  abort signal firing (from then on \<open>abortSignal.aborted\<close> is true), or the iteration
  throwing.  A signal that is never passed, or never fires, is a list without \<open>Abort\<close>.
\<close>

datatype role = User | Assistant | System

record message =
  role :: role
  content :: string

record stream_part =
  part_type :: string
  part_text :: "string option"

datatype stream_event = Part stream_part | Abort | Throw exn

text \<open>
  The chunk observer gets the accumulated text and the increment; it returns the text to
  go on with, or throws.  \<open>chunk_calls\<close> records the arguments of its calls.
\<close>

type_synonym chunk_callback = "string \<Rightarrow> string \<Rightarrow> exn + string"

record stream_state =
  fullResponse :: string
  inThinkingBlock :: bool
  aborted :: bool
  chunk_calls :: "(string \<times> string) list"

text \<open>
  \<open>part.text\<close> is used only where it is truthy: absent and empty texts count the same.
  \<open>part_chunk\<close> is the body of the loop up to \<^verbatim>\<open>if (!chunk) continue\<close>: the increment
  for one part and the new value of \<open>inThinkingBlock\<close>.
\<close>

definition text_of :: "stream_part \<Rightarrow> string" where
  "text_of part = (case part_text part of None \<Rightarrow> [] | Some t \<Rightarrow> t)"

definition part_chunk :: "bool \<Rightarrow> stream_part \<Rightarrow> string \<times> bool" where
  "part_chunk inThinking part =
     (let (chunk, thinking) =
            (if inThinking \<and>
                part_type part \<notin> set [''reasoning-delta'', ''reasoning-end'', ''reasoning-start'']
             then (''</think>'', False) else ([], inThinking)) in
      if part_type part = ''text-delta'' \<and> text_of part \<noteq> []
      then (chunk @ text_of part, thinking)
      else if part_type part = ''reasoning-delta'' \<and> text_of part \<noteq> []
      then (let (chunk', thinking') =
                  (if \<not> thinking then (''<think>'', True) else (chunk, thinking))
            in (chunk' @ escapeDyadTags (text_of part), thinking'))
      else (chunk, thinking))"

text \<open>
  The loop \<^verbatim>\<open>for await (const part of fullStream)\<close>.  The abort flag is read before
  each part; a part that arrives after the signal fired ends the loop.
\<close>

fun stream_loop :: "chunk_callback option \<Rightarrow> stream_event list \<Rightarrow> stream_state
     \<Rightarrow> exn option \<times> stream_state" where
  "stream_loop on_chunk [] st = (None, st)"
| "stream_loop on_chunk (Abort # es) st = stream_loop on_chunk es (st\<lparr>aborted := True\<rparr>)"
| "stream_loop on_chunk (Throw e # es) st = (Some e, st)"
| "stream_loop on_chunk (Part part # es) st =
     (if aborted st then (None, st)
      else
        (case part_chunk (inThinkingBlock st) part of
           (chunk, thinking) \<Rightarrow>
             if chunk = [] then stream_loop on_chunk es (st\<lparr>inThinkingBlock := thinking\<rparr>)
             else
               (let full = fullResponse st @ chunk in
                case on_chunk of
                  None \<Rightarrow>
                    stream_loop on_chunk es
                      (st\<lparr>fullResponse := full, inThinkingBlock := thinking\<rparr>)
                | Some f \<Rightarrow>
                    (case f full chunk of
                       Inl e \<Rightarrow>
                         (Some e, st\<lparr>fullResponse := full, inThinkingBlock := thinking,
                                      chunk_calls := chunk_calls st @ [(full, chunk)]\<rparr>)
                     | Inr returned \<Rightarrow>
                         stream_loop on_chunk es
                           (st\<lparr>fullResponse := returned, inThinkingBlock := thinking,
                                chunk_calls := chunk_calls st @ [(full, chunk)]\<rparr>)))))"

text \<open>
  The producer \<open>streamText\<close>: for the number of the call within one turn, the messages
  and the system prompt, it rejects or gives the events of its stream.
\<close>

type_synonym stream_text = "nat \<Rightarrow> message list \<Rightarrow> string \<Rightarrow> exn + stream_event list"

definition streamResponse ::
  "stream_text \<Rightarrow> nat \<Rightarrow> message list \<Rightarrow> string \<Rightarrow> chunk_callback option \<Rightarrow> bool
     \<Rightarrow> exn option \<times> stream_state" where
  "streamResponse stream_fn call messages systemPrompt on_chunk aborted0 =
     (let st = \<lparr>fullResponse = [], inThinkingBlock = False, aborted = aborted0, chunk_calls = []\<rparr> in
      case stream_fn call messages systemPrompt of
        Inl e \<Rightarrow> (Some e, st)
      | Inr fullStream \<Rightarrow> stream_loop on_chunk fullStream st)"

section \<open>coding-loop: one turn\<close>

text \<open>
  \<open>coding_loop_config\<close> is \<open>this.config\<close> as the constructor leaves it.  The prompt
  builders of prompts.ts are parameters.  \<open>parsedResponse\<close> of the result is
  \<open>parseResponse fullResponse\<close>, a function of the returned text alone, and is not
  carried in \<open>process_result\<close>.  \<open>onEvent\<close> only observes: its calls are listed.
\<close>

datatype chat_mode = Build | Ask | Agent

record coding_loop_config =
  chatMode :: chat_mode
  enableAutoFix :: bool
  maxContinuationAttempts :: "int option"
  aiRules :: "string option"
  enableThinking :: bool

record codebase_file =
  file_path :: string
  file_content :: string

datatype loop_event = EvStart | EvEnd | EvError exn

record process_options =
  prompt :: string
  messageHistory :: "message list"
  codebaseFiles :: "codebase_file list"
  streamText :: stream_text
  onChunk :: "chunk_callback option"
  signalAborted :: bool

record process_result =
  result_fullResponse :: string
  wasTruncated :: bool
  autoFixAttempts :: nat
  wasAborted :: bool

record prompts =
  constructSystemPrompt :: "chat_mode \<Rightarrow> string option \<Rightarrow> bool \<Rightarrow> string"
  createCodebasePrompt :: "string \<Rightarrow> string"

definition formatCodebaseFiles :: "codebase_file list \<Rightarrow> string" where
  \<open>formatCodebaseFiles files =
     join [CHR 0x0A, CHR 0x0A]
       (map (\<lambda>file. ''<dyad-file path="'' @ file_path file @ ''">'' @ [CHR 0x0A]
                      @ file_content file @ [CHR 0x0A] @ ''</dyad-file>'') files)\<close>

text \<open>
  The variables of \<open>process\<close> that the \<open>try\<close> block changes, kept when it throws.
\<close>

record turn_state =
  turn_fullResponse :: string
  turn_autoFixAttempts :: nat
  turn_aborted :: bool
  turn_events :: "loop_event list"

text \<open>
  The observer that a continuation round passes to \<open>streamResponse\<close>:
  \<^verbatim>\<open>async ({ fullResponse: newFull }) => { fullResponse = newFull;
     return onChunk?.({ fullResponse, incrementalChunk: "" }) ?? fullResponse; }\<close>.
  Its assignment to the variable \<open>fullResponse\<close> of \<open>process\<close> is applied in
  \<open>continuation_round\<close>: after the stream, the variable holds the argument of the
  observer's last call.
\<close>

definition continuation_onChunk :: "chunk_callback option \<Rightarrow> chunk_callback" where
  "continuation_onChunk on_chunk newFull incrementalChunk =
     (case on_chunk of None \<Rightarrow> Inr newFull | Some f \<Rightarrow> f newFull [])"

definition continuation_round ::
  "stream_text \<Rightarrow> chunk_callback option \<Rightarrow> message list \<Rightarrow> string \<Rightarrow> nat \<Rightarrow> turn_state
     \<Rightarrow> exn option \<times> turn_state" where
  "continuation_round stream_fn on_chunk messages systemPrompt continuationAttempts ts =
     (let continuationMessages =
            messages @ [\<lparr>role = Assistant, content = turn_fullResponse ts\<rparr>] in
      case streamResponse stream_fn continuationAttempts continuationMessages systemPrompt
             (Some (continuation_onChunk on_chunk)) (turn_aborted ts) of
        (thrown, st) \<Rightarrow>
          (let assigned = (if chunk_calls st = [] then turn_fullResponse ts
                           else fst (last (chunk_calls st)));
               ts' = ts\<lparr>turn_fullResponse := assigned, turn_aborted := aborted st\<rparr> in
           case thrown of
             Some e \<Rightarrow> (Some e, ts')
           | None \<Rightarrow> (None, ts'\<lparr>turn_fullResponse := assigned @ fullResponse st\<rparr>)))"

text \<open>
  The loop \<^verbatim>\<open>while (hasUnclosedWriteTag(fullResponse) && continuationAttempts < max
  && !abortSignal?.aborted)\<close>.
\<close>

function continuation_loop ::
  "stream_text \<Rightarrow> chunk_callback option \<Rightarrow> message list \<Rightarrow> string \<Rightarrow> int \<Rightarrow> nat \<Rightarrow> turn_state
     \<Rightarrow> exn option \<times> turn_state" where
  "continuation_loop stream_fn on_chunk messages systemPrompt maxAttempts continuationAttempts ts =
     (if hasUnclosedWriteTag (turn_fullResponse ts) \<and> int continuationAttempts < maxAttempts
         \<and> \<not> turn_aborted ts
      then
        (case continuation_round stream_fn on_chunk messages systemPrompt
                (continuationAttempts + 1) ts of
           (Some e, ts') \<Rightarrow> (Some e, ts')
         | (None, ts') \<Rightarrow>
             continuation_loop stream_fn on_chunk messages systemPrompt maxAttempts
               (continuationAttempts + 1) ts')
      else (None, ts))"
  by pat_completeness auto
termination
  by (relation "measure (\<lambda>(_, _, _, _, maxAttempts, continuationAttempts, _).
        nat (maxAttempts - int continuationAttempts))") auto

definition runAutoFixLoop :: "string \<Rightarrow> string \<times> nat" where
  "runAutoFixLoop response = (response, 0)"

text \<open>
  The \<open>try\<close> block of \<open>process\<close>, and \<open>process\<close> with its \<open>catch\<close>.
\<close>

definition process_try ::
  "coding_loop_config \<Rightarrow> process_options \<Rightarrow> message list \<Rightarrow> string
     \<Rightarrow> exn option \<times> turn_state" where
  "process_try config options messages systemPrompt =
     (let ts0 = \<lparr>turn_fullResponse = [], turn_autoFixAttempts = 0,
                 turn_aborted = signalAborted options, turn_events = [EvStart]\<rparr> in
      case streamResponse (streamText options) 0 messages systemPrompt (onChunk options)
             (turn_aborted ts0) of
        (Some e, st) \<Rightarrow> (Some e, ts0\<lparr>turn_aborted := aborted st\<rparr>)
      | (None, st) \<Rightarrow>
          (case continuation_loop (streamText options) (onChunk options) messages systemPrompt
                  (case maxContinuationAttempts config of None \<Rightarrow> 2 | Some m \<Rightarrow> m) 0
                  (ts0\<lparr>turn_fullResponse := fullResponse st, turn_aborted := aborted st\<rparr>) of
             (Some e, ts) \<Rightarrow> (Some e, ts)
           | (None, ts) \<Rightarrow>
               (let ts' =
                      (if enableAutoFix config \<and> chatMode config = Build \<and> \<not> turn_aborted ts
                       then (case runAutoFixLoop (turn_fullResponse ts) of
                               (fixed, attempts) \<Rightarrow>
                                 ts\<lparr>turn_fullResponse := fixed, turn_autoFixAttempts := attempts\<rparr>)
                       else ts)
                in (None, ts'\<lparr>turn_events := turn_events ts' @ [EvEnd]\<rparr>))))"

definition process ::
  "prompts \<Rightarrow> coding_loop_config \<Rightarrow> process_options
     \<Rightarrow> (exn + process_result) \<times> loop_event list" where
  "process env config options =
     (let systemPrompt = constructSystemPrompt env (chatMode config) (aiRules config)
                           (enableThinking config);
          codebasePrompt = createCodebasePrompt env (formatCodebaseFiles (codebaseFiles options));
          messages = [\<lparr>role = User, content = codebasePrompt\<rparr>,
                      \<lparr>role = Assistant, content = ''OK, got it. I'm ready to help''\<rparr>]
                     @ messageHistory options @ [\<lparr>role = User, content = prompt options\<rparr>] in
      case process_try config options messages systemPrompt of
        (thrown, ts) \<Rightarrow>
          (let result = \<lambda>wasAborted.
                 \<lparr>result_fullResponse = turn_fullResponse ts,
                  wasTruncated = hasUnclosedWriteTag (turn_fullResponse ts),
                  autoFixAttempts = turn_autoFixAttempts ts,
                  wasAborted = wasAborted\<rparr> in
           case thrown of
             None \<Rightarrow> (Inr (result False), turn_events ts)
           | Some e \<Rightarrow>
               if turn_aborted ts then (Inr (result True), turn_events ts)
               else (Inl e, turn_events ts @ [EvError e])))"

subsection \<open>The multiplexer as a fold\<close>

text \<open>
  The text that a list of parts adds to the document, and the flag after them.
\<close>

definition reasoning_types :: "string list" where
  "reasoning_types = [''reasoning-delta'', ''reasoning-end'', ''reasoning-start'']"

fun doc_of :: "bool \<Rightarrow> stream_part list \<Rightarrow> string" where
  "doc_of thinking [] = []"
| "doc_of thinking (p # ps) =
     fst (part_chunk thinking p) @ doc_of (snd (part_chunk thinking p)) ps"

fun thinking_after :: "bool \<Rightarrow> stream_part list \<Rightarrow> bool" where
  "thinking_after thinking [] = thinking"
| "thinking_after thinking (p # ps) = thinking_after (snd (part_chunk thinking p)) ps"

definition reasoning_text :: "stream_part \<Rightarrow> string" where
  "reasoning_text p =
     (if part_type p = ''reasoning-delta'' then escapeDyadTags (text_of p) else [])"

definition returns_argument :: "chunk_callback option \<Rightarrow> bool" where
  "returns_argument on_chunk =
     (case on_chunk of None \<Rightarrow> True | Some f \<Rightarrow> \<forall>full chunk. f full chunk = Inr full)"

lemma stream_loop_parts:
  assumes "returns_argument on_chunk" "\<not> aborted st"
  shows "\<exists>calls. stream_loop on_chunk (map Part ps) st =
           (None, st\<lparr>fullResponse := fullResponse st @ doc_of (inThinkingBlock st) ps,
                     inThinkingBlock := thinking_after (inThinkingBlock st) ps,
                     chunk_calls := calls\<rparr>)"
  using assms(2)
proof (induction ps arbitrary: st)
  case Nil
  show ?case by (intro exI[of _ "chunk_calls st"]) simp
next
  case (Cons p ps)
  obtain chunk thinking where pc: "part_chunk (inThinkingBlock st) p = (chunk, thinking)"
    by force
  show ?case
  proof (cases "chunk = []")
    case True
    have na: "\<not> aborted (st\<lparr>inThinkingBlock := thinking\<rparr>)" using Cons.prems by simp
    from Cons.IH[OF na] obtain calls where
      "stream_loop on_chunk (map Part ps) (st\<lparr>inThinkingBlock := thinking\<rparr>) =
         (None, st\<lparr>inThinkingBlock := thinking\<rparr>\<lparr>fullResponse := fullResponse st @ doc_of thinking ps,
                     inThinkingBlock := thinking_after thinking ps, chunk_calls := calls\<rparr>)"
      by auto
    then show ?thesis using pc True Cons.prems by (intro exI[of _ calls]) simp
  next
    case False
    show ?thesis
    proof (cases on_chunk)
      case None
      let ?st' = "st\<lparr>fullResponse := fullResponse st @ chunk, inThinkingBlock := thinking\<rparr>"
      have na: "\<not> aborted ?st'" using Cons.prems by simp
      from Cons.IH[OF na] obtain calls where
        "stream_loop on_chunk (map Part ps) ?st' =
           (None, ?st'\<lparr>fullResponse := fullResponse ?st' @ doc_of thinking ps,
                     inThinkingBlock := thinking_after thinking ps, chunk_calls := calls\<rparr>)"
        by auto
      then show ?thesis using pc False None Cons.prems by (intro exI[of _ calls]) simp
    next
      case (Some f)
      then have f: "\<And>full c. f full c = Inr full" using assms(1) by (simp add: returns_argument_def)
      let ?st' = "st\<lparr>fullResponse := fullResponse st @ chunk, inThinkingBlock := thinking,
                     chunk_calls := chunk_calls st @ [(fullResponse st @ chunk, chunk)]\<rparr>"
      have na: "\<not> aborted ?st'" using Cons.prems by simp
      from Cons.IH[OF na] obtain calls where
        "stream_loop on_chunk (map Part ps) ?st' =
           (None, ?st'\<lparr>fullResponse := fullResponse ?st' @ doc_of thinking ps,
                     inThinkingBlock := thinking_after thinking ps, chunk_calls := calls\<rparr>)"
        by auto
      then show ?thesis using pc False Some f Cons.prems by (intro exI[of _ calls]) simp
    qed
  qed
qed

lemma doc_of_append:
  "doc_of th (xs @ ys) = doc_of th xs @ doc_of (thinking_after th xs) ys"
  by (induction xs arbitrary: th) auto

lemma thinking_after_append:
  "thinking_after th (xs @ ys) = thinking_after (thinking_after th xs) ys"
  by (induction xs arbitrary: th) auto

lemma part_chunk_reasoning:
  "part_type p \<in> set reasoning_types \<Longrightarrow> part_chunk True p = (reasoning_text p, True)"
  by (auto simp: part_chunk_def reasoning_types_def reasoning_text_def Let_def escapeDyadTags_Nil)

lemma part_chunk_open:
  "part_type p = ''reasoning-delta'' \<Longrightarrow> text_of p \<noteq> [] \<Longrightarrow>
     part_chunk False p = (''<think>'' @ escapeDyadTags (text_of p), True)"
  by (simp add: part_chunk_def Let_def)

lemma part_chunk_thinking_cases:
  "snd (part_chunk th p) \<Longrightarrow>
     (th \<and> part_type p \<in> set reasoning_types) \<or>
     (\<not> th \<and> part_type p = ''reasoning-delta'' \<and> text_of p \<noteq> [])"
  by (auto simp: part_chunk_def reasoning_types_def Let_def split: if_splits)

lemma doc_of_run:
  "\<forall>r\<in>set rs. part_type r \<in> set reasoning_types \<Longrightarrow>
     doc_of True rs = concat (map reasoning_text rs) \<and> thinking_after True rs"
  by (induction rs) (auto simp: part_chunk_reasoning)

lemma thinking_after_decomp:
  "thinking_after th ps \<Longrightarrow>
     (th \<and> (\<forall>r\<in>set ps. part_type r \<in> set reasoning_types)) \<or>
     (\<exists>ps1 q rs. ps = ps1 @ q # rs \<and> \<not> thinking_after th ps1 \<and>
        part_type q = ''reasoning-delta'' \<and> text_of q \<noteq> [] \<and>
        (\<forall>r\<in>set rs. part_type r \<in> set reasoning_types))"
proof (induction ps rule: rev_induct)
  case Nil
  then show ?case by simp
next
  case (snoc p ps)
  let ?t = "thinking_after th ps"
  from snoc.prems have sp: "snd (part_chunk ?t p)" by (simp add: thinking_after_append)
  from part_chunk_thinking_cases[OF sp] show ?case
  proof
    assume a: "?t \<and> part_type p \<in> set reasoning_types"
    from snoc.IH[OF a[THEN conjunct1]] show ?thesis
    proof
      assume "th \<and> (\<forall>r\<in>set ps. part_type r \<in> set reasoning_types)"
      with a show ?thesis by auto
    next
      assume "\<exists>ps1 q rs. ps = ps1 @ q # rs \<and> \<not> thinking_after th ps1 \<and>
        part_type q = ''reasoning-delta'' \<and> text_of q \<noteq> [] \<and>
        (\<forall>r\<in>set rs. part_type r \<in> set reasoning_types)"
      then obtain ps1 q rs where d: "ps = ps1 @ q # rs" "\<not> thinking_after th ps1"
        "part_type q = ''reasoning-delta''" "text_of q \<noteq> []"
        "\<forall>r\<in>set rs. part_type r \<in> set reasoning_types" by blast
      have "ps @ [p] = ps1 @ q # (rs @ [p])" using d(1) by simp
      moreover have "\<forall>r\<in>set (rs @ [p]). part_type r \<in> set reasoning_types" using d(5) a by simp
      ultimately show ?thesis using d(2,3,4) by blast
    qed
  next
    assume a: "\<not> ?t \<and> part_type p = ''reasoning-delta'' \<and> text_of p \<noteq> []"
    have "ps @ [p] = ps @ p # []" by simp
    then show ?thesis using a by (intro disjI2 exI[of _ ps] exI[of _ p] exI[of _ "[]"]) simp
  qed
qed

text \<open>
  Markers in a document.  A close marker stands in \<open>s\<close> when \<open></think>\<close> can be read at
  some offset; a document has an unclosed thinking block when \<open><think>\<close> can be read at
  some offset and no close marker stands at or after it.
\<close>

definition close_marker_in :: "string \<Rightarrow> bool" where
  "close_marker_in s = list_ex (\<lambda>k. prefix ''</think>'' (drop k s)) [0..<length s]"

definition unclosed_think :: "string \<Rightarrow> bool" where
  "unclosed_think doc =
     list_ex (\<lambda>i. prefix ''<think>'' (drop i doc) \<and> \<not> close_marker_in (drop i doc))
       [0..<length doc]"

lemma close_marker_in_iff: "close_marker_in s \<longleftrightarrow> (\<exists>k. prefix ''</think>'' (drop k s))"
proof
  assume "close_marker_in s"
  then show "\<exists>k. prefix ''</think>'' (drop k s)"
    by (auto simp: close_marker_in_def list_ex_iff)
next
  assume "\<exists>k. prefix ''</think>'' (drop k s)"
  then obtain k where k: "prefix ''</think>'' (drop k s)" by blast
  have "k < length s"
  proof (rule ccontr)
    assume "\<not> k < length s"
    then have "drop k s = []" by simp
    with k show False by simp
  qed
  with k show "close_marker_in s" by (auto simp: close_marker_in_def list_ex_iff)
qed

lemma close_marker_in_append: "close_marker_in b \<Longrightarrow> close_marker_in (a @ b)"
proof -
  assume "close_marker_in b"
  then obtain k where "prefix ''</think>'' (drop k b)" by (auto simp: close_marker_in_iff)
  then have "prefix ''</think>'' (drop (length a + k) (a @ b))" by simp
  then show ?thesis unfolding close_marker_in_iff by blast
qed

lemma close_marker_after_open:
  assumes "\<not> close_marker_in body"
  shows "\<not> close_marker_in (''<think>'' @ body)"
proof
  assume "close_marker_in (''<think>'' @ body)"
  then obtain k where k: "prefix ''</think>'' (drop k (''<think>'' @ body))"
    by (auto simp: close_marker_in_iff)
  show False
  proof (cases "k < 7")
    case True
    then consider "k = 0" | "k = 1" | "k = 2" | "k = 3" | "k = 4" | "k = 5" | "k = 6" by linarith
    then show False using k by cases simp_all
  next
    case False
    then have "drop k ''<think>'' = []" by simp
    moreover have "length ''<think>'' = 7" by simp
    ultimately have "drop k (''<think>'' @ body) = drop (k - 7) body"
      by (simp only: drop_append append_Nil)
    with k assms show False by (auto simp: close_marker_in_iff)
  qed
qed

lemma unclosed_thinkI:
  assumes "doc = d0 @ ''<think>'' @ body" and "\<not> close_marker_in body"
  shows "unclosed_think doc"
proof -
  have l: "length d0 < length doc" using assms(1) by simp
  have d: "drop (length d0) doc = ''<think>'' @ body" using assms(1) by simp
  have "prefix ''<think>'' (drop (length d0) doc)" unfolding d by simp
  moreover have "\<not> close_marker_in (drop (length d0) doc)"
    unfolding d by (rule close_marker_after_open[OF assms(2)])
  ultimately show ?thesis using l unfolding unclosed_think_def list_ex_iff
    by (intro bexI[of _ "length d0"]) simp_all
qed

lemma thinking_after_reasoning_run:
  assumes "part_type q = ''reasoning-delta''" "text_of q \<noteq> []"
    and "\<forall>r\<in>set post. part_type r \<in> set reasoning_types"
  shows "thinking_after th (pre @ q # post)"
proof -
  have "snd (part_chunk (thinking_after th pre) q)"
    using assms(1,2) by (cases "thinking_after th pre") (simp_all add: part_chunk_def Let_def)
  then show ?thesis
    using doc_of_run[OF assms(3)] by (simp add: thinking_after_append)
qed

text \<open>
  Claim C10 as stated fails.  Reasoning text is copied with only the \<open>dyad\<close> tags escaped:
  a reasoning fragment whose text holds \<open></think>\<close> closes the block in the document.  An
  observer may return another document: one that appends \<open></think>\<close> closes the block.
  And when the signal fires before the reasoning fragment is read, the loop ends
  without it: the document has no open marker at all.
\<close>

theorem streamResponse_closed_thinking_counterexample:
  "streamResponse
     (\<lambda>call messages systemPrompt. Inr
        [Part \<lparr>part_type = ''reasoning-delta'', part_text = Some ''a</think>b''\<rparr>])
     0 [] [] None False
   = (None, \<lparr>fullResponse = ''<think>a</think>b'', inThinkingBlock = True, aborted = False,
              chunk_calls = []\<rparr>) \<and>
   \<not> unclosed_think ''<think>a</think>b'' \<and>
   streamResponse
     (\<lambda>call messages systemPrompt. Inr
        [Part \<lparr>part_type = ''reasoning-delta'', part_text = Some ''plan''\<rparr>])
     0 [] [] (Some (\<lambda>full chunk. Inr (full @ ''</think>''))) False
   = (None, \<lparr>fullResponse = ''<think>plan</think>'', inThinkingBlock = True, aborted = False,
              chunk_calls = [(''<think>plan'', ''<think>plan'')]\<rparr>) \<and>
   \<not> unclosed_think ''<think>plan</think>'' \<and>
   streamResponse
     (\<lambda>call messages systemPrompt. Inr
        [Part \<lparr>part_type = ''text-delta'', part_text = Some ''Hi''\<rparr>,
         Abort,
         Part \<lparr>part_type = ''reasoning-delta'', part_text = Some ''plan''\<rparr>])
     0 [] [] None False
   = (None, \<lparr>fullResponse = ''Hi'', inThinkingBlock = False, aborted = True,
              chunk_calls = []\<rparr>) \<and>
   \<not> unclosed_think ''Hi''"
  by code_simp

text \<open>
  Claim C10, amended.  Take a stream that is delivered whole (the signal does not fire
  and the iteration does not throw), with no observer or an observer that returns the
  document it is given, and that ends inside a reasoning block: a reasoning-delta
  fragment with text is followed by fragments of the reasoning types only.  Then
  \<open>streamResponse\<close> returns normally with \<open>inThinkingBlock\<close> still set, and the document
  is the document of the fragments before the block, the open marker, and the escaped
  text of the reasoning fragments of the block: the loop adds no close marker after
  the open marker, neither for a fragment nor at the end of the stream.  When that
  reasoning text itself holds no \<open></think>\<close>, no close marker stands at or after the open
  marker: the thinking block of the document is unclosed.
\<close>

theorem streamResponse_unclosed_thinking:
  assumes "stream_fn call messages systemPrompt = Inr (map Part (pre @ q # post))"
    and "returns_argument on_chunk"
    and "part_type q = ''reasoning-delta''" and "text_of q \<noteq> []"
    and "\<forall>r\<in>set post. part_type r \<in> set reasoning_types"
  shows "\<exists>ps1 q1 rs st.
      pre @ q # post = ps1 @ q1 # rs \<and> \<not> thinking_after False ps1 \<and>
      part_type q1 = ''reasoning-delta'' \<and> text_of q1 \<noteq> [] \<and>
      (\<forall>r\<in>set rs. part_type r \<in> set reasoning_types) \<and>
      streamResponse stream_fn call messages systemPrompt on_chunk False = (None, st) \<and>
      inThinkingBlock st \<and>
      fullResponse st =
        doc_of False ps1 @ ''<think>'' @ escapeDyadTags (text_of q1) @ concat (map reasoning_text rs) \<and>
      (\<not> close_marker_in (escapeDyadTags (text_of q1) @ concat (map reasoning_text rs)) \<longrightarrow>
         \<not> close_marker_in (drop (length (doc_of False ps1)) (fullResponse st)) \<and>
         unclosed_think (fullResponse st))"
proof -
  let ?ps = "pre @ q # post"
  from thinking_after_reasoning_run[OF assms(3,4,5)] have th: "thinking_after False ?ps" .
  from thinking_after_decomp[OF this]
  obtain ps1 q1 rs where d: "?ps = ps1 @ q1 # rs" "\<not> thinking_after False ps1"
    "part_type q1 = ''reasoning-delta''" "text_of q1 \<noteq> []"
    "\<forall>r\<in>set rs. part_type r \<in> set reasoning_types" by auto
  let ?body = "escapeDyadTags (text_of q1) @ concat (map reasoning_text rs)"
  let ?st0 = "\<lparr>fullResponse = [], inThinkingBlock = False, aborted = False, chunk_calls = []\<rparr>"
  from stream_loop_parts[OF assms(2), of ?st0 ?ps]
  obtain calls where
    sl: "stream_loop on_chunk (map Part ?ps) ?st0 =
      (None, ?st0\<lparr>fullResponse := doc_of False ?ps, inThinkingBlock := thinking_after False ?ps,
                   chunk_calls := calls\<rparr>)"
    by auto
  let ?st = "?st0\<lparr>fullResponse := doc_of False ?ps, inThinkingBlock := thinking_after False ?ps,
                   chunk_calls := calls\<rparr>"
  have doc: "doc_of False ?ps = doc_of False ps1 @ ''<think>'' @ ?body"
    unfolding d(1) using d(2) doc_of_run[OF d(5)]
    by (simp add: doc_of_append part_chunk_open[OF d(3,4)])
  have run: "streamResponse stream_fn call messages systemPrompt on_chunk False = (None, ?st)"
    unfolding streamResponse_def assms(1) Let_def using sl by simp
  have full: "fullResponse ?st = doc_of False ps1 @ ''<think>'' @ ?body" using doc by simp
  have unclosed: "\<not> close_marker_in (drop (length (doc_of False ps1)) (fullResponse ?st)) \<and>
      unclosed_think (fullResponse ?st)" if nb: "\<not> close_marker_in ?body"
  proof
    show "\<not> close_marker_in (drop (length (doc_of False ps1)) (fullResponse ?st))"
      unfolding full using close_marker_after_open[OF nb] by simp
    show "unclosed_think (fullResponse ?st)" by (rule unclosed_thinkI[OF full nb])
  qed
  have ith: "inThinkingBlock ?st" using th by simp
  show ?thesis
    using d run ith full unclosed
    by (intro exI[of _ ps1] exI[of _ q1] exI[of _ rs] exI[of _ ?st]) blast
qed

theorem streamResponse_unclosed_thinking_witness:
  "returns_argument None \<and>
   streamResponse
     (\<lambda>call messages systemPrompt. Inr (map Part
        ([\<lparr>part_type = ''text-delta'', part_text = Some ''Hi''\<rparr>] @
         \<lparr>part_type = ''reasoning-delta'', part_text = Some ''plan''\<rparr> #
         [\<lparr>part_type = ''reasoning-end'', part_text = None\<rparr>])))
     0 [] [] None False
   = (None, \<lparr>fullResponse = ''Hi<think>plan'', inThinkingBlock = True, aborted = False,
              chunk_calls = []\<rparr>) \<and>
   \<not> close_marker_in ''Hi<think>plan'' \<and>
   unclosed_think ''Hi<think>plan''"
proof -
  let ?pre = "[\<lparr>part_type = ''text-delta'', part_text = Some ''Hi''\<rparr>]"
  let ?q = "\<lparr>part_type = ''reasoning-delta'', part_text = Some ''plan''\<rparr>"
  let ?post = "[\<lparr>part_type = ''reasoning-end'', part_text = None\<rparr>]"
  let ?f = "\<lambda>(call::nat) (messages::message list) (systemPrompt::string).
      Inr (map Part (?pre @ ?q # ?post)) :: exn + stream_event list"
  have h1: "?f 0 [] [] = Inr (map Part (?pre @ ?q # ?post))" by simp
  have h2: "returns_argument None" by (simp add: returns_argument_def)
  have h3: "part_type ?q = ''reasoning-delta''" by simp
  have h4: "text_of ?q \<noteq> []" by (simp add: text_of_def)
  have h5: "\<forall>r\<in>set ?post. part_type r \<in> set reasoning_types" by (simp add: reasoning_types_def)
  have v: "streamResponse ?f 0 [] [] None False
   = (None, \<lparr>fullResponse = ''Hi<think>plan'', inThinkingBlock = True, aborted = False,
              chunk_calls = []\<rparr>)"
    by code_simp
  have nc: "\<not> close_marker_in ''Hi<think>plan''" by code_simp
  from streamResponse_unclosed_thinking[of ?f 0 "[]" "[]" ?pre ?q ?post None, OF h1 h2 h3 h4 h5]
  obtain ps1 q1 rs st where r:
    "streamResponse ?f 0 [] [] None False = (None, st)"
    "fullResponse st =
       doc_of False ps1 @ ''<think>'' @ escapeDyadTags (text_of q1) @ concat (map reasoning_text rs)"
    "\<not> close_marker_in (escapeDyadTags (text_of q1) @ concat (map reasoning_text rs)) \<longrightarrow>
       unclosed_think (fullResponse st)"
    by blast
  from r(1) v have st: "fullResponse st = ''Hi<think>plan''" by simp
  have "\<not> close_marker_in (escapeDyadTags (text_of q1) @ concat (map reasoning_text rs))"
  proof
    assume "close_marker_in (escapeDyadTags (text_of q1) @ concat (map reasoning_text rs))"
    then have "close_marker_in (doc_of False ps1 @ ''<think>''
        @ escapeDyadTags (text_of q1) @ concat (map reasoning_text rs))"
      using close_marker_in_append[of _ "doc_of False ps1 @ ''<think>''"] by simp
    with r(2) st nc show False by simp
  qed
  with r(3) st have "unclosed_think ''Hi<think>plan''" by simp
  with h2 v nc show ?thesis by blast
qed

subsection \<open>Cancellation and continuation\<close>

lemma hasUnclosed_examples:
  "\<not> hasUnclosedWriteTag ''Hello''"
  \<open>hasUnclosedWriteTag ''<dyad-write path="a">x''\<close>
  "\<not> hasUnclosedWriteTag ''y</dyad-write>y</dyad-write>''"
  by code_simp+

text \<open>
  Claim C2 at a concrete stream.  The signal fires after the first fragment; the loop
  of \<open>streamResponse\<close> ends at the next fragment, and \<open>process\<close> returns the text of the
  first fragment with \<open>wasAborted\<close> false: the flag is set only in the \<open>catch\<close> block.
\<close>

theorem process_abort_at_fragment_boundary:
  "fst (process env config
     \<lparr>prompt = p, messageHistory = history, codebaseFiles = files,
      streamText = (\<lambda>call messages systemPrompt. Inr
         [Part \<lparr>part_type = ''text-delta'', part_text = Some ''Hello''\<rparr>,
          Abort,
          Part \<lparr>part_type = ''text-delta'', part_text = Some '' world''\<rparr>]),
      onChunk = None, signalAborted = False\<rparr>)
   = Inr \<lparr>result_fullResponse = ''Hello'', wasTruncated = False, autoFixAttempts = 0,
          wasAborted = False\<rparr>"
  by (simp add: process_def process_try_def streamResponse_def part_chunk_def text_of_def
      Let_def hasUnclosed_examples)

text \<open>
  Claim C3 at a concrete stream.  The first stream ends inside a Write tag; the
  continuation round yields the rest.  The observer of the round overwrites the
  document with the continuation's own text, which is then appended once more: the
  partial document is lost and the continuation stands twice.
\<close>

theorem process_continuation_overwrites:
  \<open>fst (process env (config\<lparr>maxContinuationAttempts := None\<rparr>)
     \<lparr>prompt = p, messageHistory = history, codebaseFiles = files,
      streamText = (\<lambda>call messages systemPrompt.
         if call = 0
         then Inr [Part \<lparr>part_type = ''text-delta'', part_text = Some ''<dyad-write path="a">x''\<rparr>]
         else Inr [Part \<lparr>part_type = ''text-delta'', part_text = Some ''y</dyad-write>''\<rparr>]),
      onChunk = None, signalAborted = False\<rparr>)
   = Inr \<lparr>result_fullResponse = ''y</dyad-write>y</dyad-write>'', wasTruncated = False,
          autoFixAttempts = 0, wasAborted = False\<rparr>\<close>
  by (simp add: process_def process_try_def streamResponse_def part_chunk_def text_of_def
      Let_def hasUnclosed_examples continuation_round_def continuation_onChunk_def
      runAutoFixLoop_def)

end
